theory Spec2Isabelle
  imports Complex_Main "HOL-Library.AList"
begin

section \<open>Syntax values, run-time values and errors\<close>

text \<open>
  The reader (sexpdata) is outside the program. It hands the evaluator nested Python
  lists whose leaves are numbers (\<open>int\<close> or \<open>float\<close>) and \<open>Symbol\<close> objects.
  A Python \<open>int\<close> is unbounded. A \<open>float\<close> is carried by the rational it denotes:
  the rounding and the overflow of IEEE doubles are not modelled, so the arithmetic
  of \<open>PyFloat\<close> agrees with Python wherever the exact result is a double.
\<close>

datatype number = PyInt int | PyFloat rat

datatype sexp = Num number | Symbol string | Lst "sexp list"

text \<open>The four Python lambdas that \<open>_initialize_builtins\<close> installs.\<close>

datatype builtin = Add | Sub | Mul | Div

text \<open>
  \<open>class Closure\<close>. The field \<open>id\<close> is named \<open>closure_id\<close> here, and the
  field \<open>env_id\<close> (\<open>def_env_id\<close> in Grapher2.py and Grapher3.py) is named
  \<open>def_env_id\<close>. A closure object is never changed after \<open>__init__\<close>, so a
  value that refers to it carries the record.
\<close>

record closure =
  closure_id :: nat
  params :: "string list"
  body :: sexp
  def_env_id :: nat

text \<open>
  What \<open>eval_expr\<close> returns and what a binding table holds: a number, Python's
  \<open>None\<close>, one of the builtin lambdas, or a \<open>Closure\<close> object.
\<close>

datatype val = Number number | NoneVal | Builtin builtin | Closure closure

text \<open>
  The exceptions the evaluator can end with. \<open>NameError\<close> is raised by
  \<open>Environment.lookup\<close> and \<open>Environment.update\<close> (the specification's
  UnboundVariable); \<open>NotCallable\<close> is the \<open>TypeError("Attempted to call
  non-callable: ...")\<close> of \<open>eval_expr\<close>. The others are raised by Python itself:
  \<open>TypeError\<close> (a builtin called with the wrong number of arguments or on an
  operand that is not a number, iterating or unpacking a number or a symbol),
  \<open>ValueError\<close> (unpacking a list of the wrong length), \<open>AttributeError\<close>
  (\<open>.value()\<close> on something that is not a symbol), \<open>IndexError\<close> (\<open>args[0]\<close> on
  an empty list, \<open>self.envs[i]\<close> out of range) and \<open>ZeroDivisionError\<close>.
\<close>

datatype error =
    NameError string
  | NotCallable val
  | TypeError
  | ValueError
  | AttributeError
  | IndexError
  | ZeroDivisionError

section \<open>Arithmetic of the builtins\<close>

fun to_rat :: "number \<Rightarrow> rat" where
  "to_rat (PyInt i) = of_int i"
| "to_rat (PyFloat r) = r"

text \<open>\<open>x + y\<close>, \<open>x - y\<close>, \<open>x * y\<close>: an \<open>int\<close> when both operands are, a \<open>float\<close> otherwise.\<close>

fun py_add :: "number \<Rightarrow> number \<Rightarrow> number" where
  "py_add (PyInt a) (PyInt b) = PyInt (a + b)"
| "py_add x y = PyFloat (to_rat x + to_rat y)"

fun py_sub :: "number \<Rightarrow> number \<Rightarrow> number" where
  "py_sub (PyInt a) (PyInt b) = PyInt (a - b)"
| "py_sub x y = PyFloat (to_rat x - to_rat y)"

fun py_mul :: "number \<Rightarrow> number \<Rightarrow> number" where
  "py_mul (PyInt a) (PyInt b) = PyInt (a * b)"
| "py_mul x y = PyFloat (to_rat x * to_rat y)"

text \<open>\<open>x / y\<close> is Python 3's true division: always a \<open>float\<close>, and an exception when \<open>y\<close> is zero.\<close>

definition py_truediv :: "number \<Rightarrow> number \<Rightarrow> error + number" where
  "py_truediv x y =
     (if to_rat y = 0 then Inl ZeroDivisionError else Inr (PyFloat (to_rat x / to_rat y)))"

text \<open>
  \<open>proc(*evaluated_args)\<close> for a builtin: each lambda takes exactly two arguments,
  and its operator is defined on numbers only.
\<close>

fun call_builtin :: "builtin \<Rightarrow> val list \<Rightarrow> error + val" where
  "call_builtin Add [Number x, Number y] = Inr (Number (py_add x y))"
| "call_builtin Sub [Number x, Number y] = Inr (Number (py_sub x y))"
| "call_builtin Mul [Number x, Number y] = Inr (Number (py_mul x y))"
| "call_builtin Div [Number x, Number y] = map_sum id Number (py_truediv x y)"
| "call_builtin f evaluated_args = Inl TypeError"

section \<open>Environment frames\<close>

text \<open>
  \<open>class Environment\<close>. Frames are shared mutable objects, so the interpreter's
  list \<open>envs\<close> is the store and a frame is referred to by its position there: the
  \<open>parent\<close> field holds the position of the parent frame. \<open>bindings\<close> is a Python
  dict; an association list keeps its insertion order.
\<close>

record environment =
  env_id :: nat
  parent :: "nat option"
  bindings :: "(string \<times> val) list"

text \<open>
  The methods take the store and the position of \<open>self\<close> (\<open>define\<close> is
  \<open>define_var\<close> here). They have no result
  (\<open>None\<close>) where there is no frame at that position, and \<open>lookup\<close> and \<open>update\<close>
  have none either where the chain of parents never ends.
\<close>

definition define_var :: "'a environment_scheme list \<Rightarrow> nat \<Rightarrow> string \<Rightarrow> val \<Rightarrow> 'a environment_scheme list option" where
  "define_var envs self var v =
     (if self < length envs
      then Some (envs[self := (envs ! self)\<lparr>bindings := AList.update var v (bindings (envs ! self))\<rparr>])
      else None)"

partial_function (option) lookup :: "'a environment_scheme list \<Rightarrow> nat \<Rightarrow> string \<Rightarrow> (error + val) option" where
  "lookup envs self var =
     (if self < length envs then
        (case map_of (bindings (envs ! self)) var of
           Some v \<Rightarrow> Some (Inr v)
         | None \<Rightarrow>
            (case parent (envs ! self) of
               Some p \<Rightarrow> lookup envs p var
             | None \<Rightarrow> Some (Inl (NameError var))))
      else None)"

partial_function (option) update :: "'a environment_scheme list \<Rightarrow> nat \<Rightarrow> string \<Rightarrow> val \<Rightarrow> (error + 'a environment_scheme list) option" where
  "update envs self var v =
     (if self < length envs then
        (case map_of (bindings (envs ! self)) var of
           Some old \<Rightarrow> map_option Inr (define_var envs self var v)
         | None \<Rightarrow>
            (case parent (envs ! self) of
               Some p \<Rightarrow> update envs p var v
             | None \<Rightarrow> Some (Inl (NameError var))))
      else None)"

declare lookup.simps [code] update.simps [code]

section \<open>The interpreter state\<close>

text \<open>
  \<open>closure_counter\<close> is the module's global; \<open>envs\<close> and \<open>closures\<close> are the two
  lists of a \<open>SchemeInterpreter\<close> instance. A state is what a call of
  \<open>eval_expr\<close> reads and writes: the global and the lists of the instance it is
  called on. The type of the frames is a parameter because the frames of
  Grapher3.py have one more field.
\<close>

record 'e interp =
  closure_counter :: nat
  envs :: "'e list"
  closures :: "closure list"

text \<open>
  A call either has no result (\<open>None\<close>: the recursion is deeper than the bound it
  was given, or it touched a frame that does not exist), or it ends with a value or
  an exception, in the state it has reached by then.
\<close>

type_synonym ('a, 'e) res = "((error + 'a) \<times> 'e interp) option"

definition bind_res :: "('a, 'e) res \<Rightarrow> ('a \<Rightarrow> 'e interp \<Rightarrow> ('b, 'e) res) \<Rightarrow> ('b, 'e) res" where
  "bind_res m f =
     (case m of
        None \<Rightarrow> None
      | Some (Inl err, s) \<Rightarrow> Some (Inl err, s)
      | Some (Inr v, s) \<Rightarrow> f v s)"

definition raise :: "error \<Rightarrow> 'e interp \<Rightarrow> ('a, 'e) res" where
  "raise err s = Some (Inl err, s)"

definition return :: "'a \<Rightarrow> 'e interp \<Rightarrow> ('a, 'e) res" where
  "return v s = Some (Inr v, s)"

text \<open>A step that only computes: its exception, if any, is raised in the current state.\<close>

definition lift :: "error + 'a \<Rightarrow> 'e interp \<Rightarrow> ('a, 'e) res" where
  "lift r s = Some (r, s)"

text \<open>
  \<open>SchemeInterpreter.__init__\<close> with \<open>_initialize_builtins\<close>: the lists of a new
  instance, beside the global counter at the value \<open>counter\<close> it has when the
  instance starts to run.
\<close>

definition initial_bindings :: "(string \<times> val) list" where
  "initial_bindings =
     [(''+'', Builtin Add), (''-'', Builtin Sub), (''*'', Builtin Mul), (''/'', Builtin Div)]"

definition SchemeInterpreter :: "nat \<Rightarrow> environment interp" where
  "SchemeInterpreter counter =
     \<lparr>closure_counter = counter,
      envs = [\<lparr>env_id = 0, parent = None, bindings = initial_bindings\<rparr>],
      closures = []\<rparr>"

definition new_env :: "nat \<Rightarrow> environment interp \<Rightarrow> nat \<times> environment interp" where
  "new_env parent_env s =
     (let e = \<lparr>env_id = length (envs s), parent = Some parent_env, bindings = []\<rparr>
      in (length (envs s), s\<lparr>envs := envs s @ [e]\<rparr>))"

definition new_closure :: "string list \<Rightarrow> sexp \<Rightarrow> nat \<Rightarrow> 'e interp \<Rightarrow> closure \<times> 'e interp" where
  "new_closure ps b eid s =
     (let c = \<lparr>closure_id = closure_counter s, params = ps, body = b, def_env_id = eid\<rparr>
      in (c, s\<lparr>closure_counter := closure_counter s + 1, closures := closures s @ [c]\<rparr>))"

section \<open>The pieces of \<open>eval_expr\<close>\<close>

text \<open>\<open>sym.value()\<close>: only a \<open>Symbol\<close> has the method.\<close>

fun symbol_value :: "sexp \<Rightarrow> error + string" where
  "symbol_value (Symbol x) = Inr x"
| "symbol_value e = Inl AttributeError"

text \<open>\<open>a, b = args\<close> for the Python list \<open>args\<close>.\<close>

fun unpack_args :: "sexp list \<Rightarrow> error + sexp \<times> sexp" where
  "unpack_args [a, b] = Inr (a, b)"
| "unpack_args args = Inl ValueError"

text \<open>\<open>a, b = binding\<close> for a syntax value: a number or a symbol cannot be unpacked.\<close>

fun unpack_binding :: "sexp \<Rightarrow> error + sexp \<times> sexp" where
  "unpack_binding (Lst xs) = unpack_args xs"
| "unpack_binding e = Inl TypeError"

text \<open>Iterating over a syntax value (\<open>for binding in binding_list\<close>, \<open>for p in params\<close>).\<close>

fun iterate :: "sexp \<Rightarrow> error + sexp list" where
  "iterate (Lst xs) = Inr xs"
| "iterate e = Inl TypeError"

text \<open>\<open>[p.value() for p in params]\<close> once \<open>params\<close> is known to be a list.\<close>

fun param_names :: "sexp list \<Rightarrow> error + string list" where
  "param_names [] = Inr []"
| "param_names (p # ps) =
     (case symbol_value p of
        Inl err \<Rightarrow> Inl err
      | Inr x \<Rightarrow> (case param_names ps of Inl err \<Rightarrow> Inl err | Inr xs \<Rightarrow> Inr (x # xs)))"

text \<open>
  The body a lambda stores: the only body expression when there is exactly one,
  \<open>(begin body...)\<close> otherwise.
\<close>

fun lambda_body :: "sexp list \<Rightarrow> sexp" where
  "lambda_body [b] = b"
| "lambda_body body_exprs = Lst (Symbol ''begin'' # body_exprs)"

text \<open>\<open>env.define(var, val)\<close> and \<open>env.update(var, val)\<close> on the interpreter's store.\<close>

definition env_define :: "nat \<Rightarrow> string \<Rightarrow> val \<Rightarrow> 'a environment_scheme interp \<Rightarrow> (unit, 'a environment_scheme) res" where
  "env_define env var v s =
     (case define_var (envs s) env var v of
        None \<Rightarrow> None
      | Some envs' \<Rightarrow> Some (Inr (), s\<lparr>envs := envs'\<rparr>))"

definition env_update :: "nat \<Rightarrow> string \<Rightarrow> val \<Rightarrow> 'a environment_scheme interp \<Rightarrow> (unit, 'a environment_scheme) res" where
  "env_update env var v s =
     (case update (envs s) env var v of
        None \<Rightarrow> None
      | Some (Inl err) \<Rightarrow> Some (Inl err, s)
      | Some (Inr envs') \<Rightarrow> Some (Inr (), s\<lparr>envs := envs'\<rparr>))"

definition env_lookup :: "nat \<Rightarrow> string \<Rightarrow> 'a environment_scheme interp \<Rightarrow> (val, 'a environment_scheme) res" where
  "env_lookup env var s = (case lookup (envs s) env var of None \<Rightarrow> None | Some r \<Rightarrow> Some (r, s))"

text \<open>
  The loops of \<open>eval_expr\<close>. Each takes as \<open>ev\<close> the evaluator it calls back, which
  is \<open>eval_expr\<close> one level deeper.

  \<open>result = None; for subexpr in args: result = self.eval_expr(subexpr, env); return result\<close>
\<close>

fun eval_body :: "(sexp \<Rightarrow> nat \<Rightarrow> 'e interp \<Rightarrow> (val, 'e) res) \<Rightarrow> sexp list \<Rightarrow> nat \<Rightarrow> val \<Rightarrow> 'e interp \<Rightarrow> (val, 'e) res" where
  "eval_body ev [] env result s = return result s"
| "eval_body ev (subexpr # rest) env result s =
     bind_res (ev subexpr env s) (\<lambda>result'. eval_body ev rest env result')"

text \<open>
  \<open>for binding in binding_list: var_sym, val_expr = binding;
  val = self.eval_expr(val_expr, env); let_env.define(var_sym.value(), val)\<close>
\<close>

fun bind_let :: "(sexp \<Rightarrow> nat \<Rightarrow> 'a environment_scheme interp \<Rightarrow> (val, 'a environment_scheme) res) \<Rightarrow> sexp list \<Rightarrow> nat \<Rightarrow> nat \<Rightarrow> 'a environment_scheme interp \<Rightarrow> (unit, 'a environment_scheme) res" where
  "bind_let ev [] env let_env s = return () s"
| "bind_let ev (binding # rest) env let_env s =
     bind_res (lift (unpack_binding binding) s) (\<lambda>(var_sym, val_expr) s.
     bind_res (ev val_expr env s) (\<lambda>v s.
     bind_res (lift (symbol_value var_sym) s) (\<lambda>var s.
     bind_res (env_define let_env var v s) (\<lambda>u.
     bind_let ev rest env let_env))))"

text \<open>\<open>[self.eval_expr(a, env) for a in args]\<close>\<close>

fun eval_args :: "(sexp \<Rightarrow> nat \<Rightarrow> 'e interp \<Rightarrow> (val, 'e) res) \<Rightarrow> sexp list \<Rightarrow> nat \<Rightarrow> 'e interp \<Rightarrow> (val list, 'e) res" where
  "eval_args ev [] env s = return [] s"
| "eval_args ev (a # rest) env s =
     bind_res (ev a env s) (\<lambda>v s.
     bind_res (eval_args ev rest env s) (\<lambda>vs. return (v # vs)))"

text \<open>
  \<open>for param, arg_expr in zip(proc.params, args):
  val = self.eval_expr(arg_expr, env); call_env.define(param, val)\<close>
\<close>

fun bind_params :: "(sexp \<Rightarrow> nat \<Rightarrow> 'a environment_scheme interp \<Rightarrow> (val, 'a environment_scheme) res) \<Rightarrow> (string \<times> sexp) list \<Rightarrow> nat \<Rightarrow> nat \<Rightarrow> 'a environment_scheme interp \<Rightarrow> (unit, 'a environment_scheme) res" where
  "bind_params ev [] env call_env s = return () s"
| "bind_params ev ((param, arg_expr) # rest) env call_env s =
     bind_res (ev arg_expr env s) (\<lambda>v s.
     bind_res (env_define call_env param v s) (\<lambda>u.
     bind_params ev rest env call_env))"

section \<open>\<open>SchemeInterpreter.eval_expr\<close> and \<open>run\<close> of Grapher.py\<close>

text \<open>
  The first argument bounds the depth of the recursion: \<open>eval_expr\<close> calls itself
  on every subexpression and on the body of every closure it applies, and
  \<open>(define f (lambda () (f))) (f)\<close> never returns.
\<close>

primrec eval_expr :: "nat \<Rightarrow> sexp \<Rightarrow> nat \<Rightarrow> environment interp \<Rightarrow> (val, environment) res" where
  "eval_expr 0 = (\<lambda>expr env s. None)"
| "eval_expr (Suc depth) = (\<lambda>expr env s.
     case expr of
       Num k \<Rightarrow> return (Number k) s
     | Symbol x \<Rightarrow> env_lookup env x s
     | Lst [] \<Rightarrow> return NoneVal s
     | Lst (op # args) \<Rightarrow>
        if op = Symbol ''define'' then
          bind_res (lift (unpack_args args) s) (\<lambda>(var_symbol, val_expr) s.
          bind_res (eval_expr depth val_expr env s) (\<lambda>v s.
          bind_res (lift (symbol_value var_symbol) s) (\<lambda>var s.
          bind_res (env_define env var v s) (\<lambda>u.
          return v))))
        else if op = Symbol ''lambda'' then
          (case args of
             [] \<Rightarrow> raise IndexError s
           | ps # body_exprs \<Rightarrow>
              bind_res (lift (iterate ps) s) (\<lambda>ps s.
              bind_res (lift (param_names ps) s) (\<lambda>names s.
                if env < length (envs s) then
                  (case new_closure names (lambda_body body_exprs) (env_id (envs s ! env)) s of
                     (closure_obj, s) \<Rightarrow> return (Closure closure_obj) s)
                else None)))
        else if op = Symbol ''begin'' then
          eval_body (eval_expr depth) args env NoneVal s
        else if op = Symbol ''let'' then
          (case args of
             [] \<Rightarrow> raise IndexError s
           | binding_list # body_exprs \<Rightarrow>
              (case new_env env s of (let_env, s) \<Rightarrow>
                 bind_res (lift (iterate binding_list) s) (\<lambda>bs s.
                 bind_res (bind_let (eval_expr depth) bs env let_env s) (\<lambda>u.
                 eval_body (eval_expr depth) body_exprs let_env NoneVal))))
        else if op = Symbol ''set!'' then
          bind_res (lift (unpack_args args) s) (\<lambda>(var_sym, val_expr) s.
          bind_res (eval_expr depth val_expr env s) (\<lambda>v s.
          bind_res (lift (symbol_value var_sym) s) (\<lambda>var s.
          bind_res (env_update env var v s) (\<lambda>u.
          return v))))
        else
          bind_res (eval_expr depth op env s) (\<lambda>proc s.
            case proc of
              Builtin f \<Rightarrow>
                bind_res (eval_args (eval_expr depth) args env s) (\<lambda>evaluated_args.
                lift (call_builtin f evaluated_args))
            | Closure c \<Rightarrow>
                if def_env_id c < length (envs s) then
                  (case new_env (def_env_id c) s of (call_env, s) \<Rightarrow>
                     bind_res (bind_params (eval_expr depth) (zip (params c) args) env call_env s) (\<lambda>u.
                     eval_expr depth (body c) call_env))
                else raise IndexError s
            | _ \<Rightarrow> raise (NotCallable proc) s))"

text \<open>\<open>for expr in exprs: self.eval_expr(expr, self.global_env)\<close>; the global frame is at position 0.\<close>

fun run :: "nat \<Rightarrow> sexp list \<Rightarrow> environment interp \<Rightarrow> (unit, environment) res" where
  "run depth [] s = return () s"
| "run depth (expr # exprs) s = bind_res (eval_expr depth expr 0 s) (\<lambda>v. run depth exprs)"

section \<open>Grapher2.py\<close>

text \<open>
  \<open>Closure\<close>, \<open>Environment\<close>, \<open>__init__\<close>, \<open>new_env\<close> and \<open>new_closure\<close> of
  Grapher2.py are those of Grapher.py line by line, and so are the loops inside
  \<open>eval_expr\<close>; they are embedded once, above. Its \<open>eval_expr\<close> tests the
  procedure with \<open>if ... elif ... else: raise\<close> where Grapher.py has two \<open>if\<close>s
  that return and a final \<open>raise\<close>.
\<close>

primrec eval_expr2 :: "nat \<Rightarrow> sexp \<Rightarrow> nat \<Rightarrow> environment interp \<Rightarrow> (val, environment) res" where
  "eval_expr2 0 = (\<lambda>expr env s. None)"
| "eval_expr2 (Suc depth) = (\<lambda>expr env s.
     case expr of
       Num k \<Rightarrow> return (Number k) s
     | Symbol x \<Rightarrow> env_lookup env x s
     | Lst [] \<Rightarrow> return NoneVal s
     | Lst (op # args) \<Rightarrow>
        if op = Symbol ''define'' then
          bind_res (lift (unpack_args args) s) (\<lambda>(var_sym, val_expr) s.
          bind_res (eval_expr2 depth val_expr env s) (\<lambda>v s.
          bind_res (lift (symbol_value var_sym) s) (\<lambda>var s.
          bind_res (env_define env var v s) (\<lambda>u.
          return v))))
        else if op = Symbol ''lambda'' then
          (case args of
             [] \<Rightarrow> raise IndexError s
           | ps # body_exprs \<Rightarrow>
              bind_res (lift (iterate ps) s) (\<lambda>ps s.
              bind_res (lift (param_names ps) s) (\<lambda>names s.
                if env < length (envs s) then
                  (case new_closure names (lambda_body body_exprs) (env_id (envs s ! env)) s of
                     (closure_obj, s) \<Rightarrow> return (Closure closure_obj) s)
                else None)))
        else if op = Symbol ''begin'' then
          eval_body (eval_expr2 depth) args env NoneVal s
        else if op = Symbol ''let'' then
          (case args of
             [] \<Rightarrow> raise IndexError s
           | binding_list # body_exprs \<Rightarrow>
              (case new_env env s of (let_env, s) \<Rightarrow>
                 bind_res (lift (iterate binding_list) s) (\<lambda>bs s.
                 bind_res (bind_let (eval_expr2 depth) bs env let_env s) (\<lambda>u.
                 eval_body (eval_expr2 depth) body_exprs let_env NoneVal))))
        else if op = Symbol ''set!'' then
          bind_res (lift (unpack_args args) s) (\<lambda>(var_sym, val_expr) s.
          bind_res (eval_expr2 depth val_expr env s) (\<lambda>v s.
          bind_res (lift (symbol_value var_sym) s) (\<lambda>var s.
          bind_res (env_update env var v s) (\<lambda>u.
          return v))))
        else
          bind_res (eval_expr2 depth op env s) (\<lambda>proc s.
            case proc of
              Builtin f \<Rightarrow>
                bind_res (eval_args (eval_expr2 depth) args env s) (\<lambda>evaluated_args.
                lift (call_builtin f evaluated_args))
            | Closure c \<Rightarrow>
                if def_env_id c < length (envs s) then
                  (case new_env (def_env_id c) s of (call_env, s) \<Rightarrow>
                     bind_res (bind_params (eval_expr2 depth) (zip (params c) args) env call_env s) (\<lambda>u.
                     eval_expr2 depth (body c) call_env))
                else raise IndexError s
            | _ \<Rightarrow> raise (NotCallable proc) s))"

fun run2 :: "nat \<Rightarrow> sexp list \<Rightarrow> environment interp \<Rightarrow> (unit, environment) res" where
  "run2 depth [] s = return () s"
| "run2 depth (expr # exprs) s = bind_res (eval_expr2 depth expr 0 s) (\<lambda>v. run2 depth exprs)"

section \<open>Grapher3.py\<close>

text \<open>
  The frames of Grapher3.py have the field \<open>is_global\<close>, which only \<open>visualize\<close>
  reads: \<open>__init__\<close> sets it for the global frame and \<open>new_env\<close> clears it. The
  methods of \<open>Environment\<close> are those of Grapher.py. \<open>eval_expr\<close> tests
  \<open>isinstance(expr, list) and expr\<close>, so the empty list falls through to the final
  \<open>return None\<close>.
\<close>

record environment3 = environment +
  is_global :: bool

definition SchemeInterpreter3 :: "nat \<Rightarrow> environment3 interp" where
  "SchemeInterpreter3 counter =
     \<lparr>closure_counter = counter,
      envs = [\<lparr>env_id = 0, parent = None, bindings = initial_bindings, is_global = True\<rparr>],
      closures = []\<rparr>"

definition new_env3 :: "nat \<Rightarrow> environment3 interp \<Rightarrow> nat \<times> environment3 interp" where
  "new_env3 parent_env s =
     (let e = \<lparr>env_id = length (envs s), parent = Some parent_env, bindings = [], is_global = False\<rparr>
      in (length (envs s), s\<lparr>envs := envs s @ [e]\<rparr>))"

primrec eval_expr3 :: "nat \<Rightarrow> sexp \<Rightarrow> nat \<Rightarrow> environment3 interp \<Rightarrow> (val, environment3) res" where
  "eval_expr3 0 = (\<lambda>expr env s. None)"
| "eval_expr3 (Suc depth) = (\<lambda>expr env s.
     case expr of
       Num k \<Rightarrow> return (Number k) s
     | Symbol x \<Rightarrow> env_lookup env x s
     | Lst (op # args) \<Rightarrow>
        if op = Symbol ''define'' then
          bind_res (lift (unpack_args args) s) (\<lambda>(var_sym, val_expr) s.
          bind_res (eval_expr3 depth val_expr env s) (\<lambda>v s.
          bind_res (lift (symbol_value var_sym) s) (\<lambda>var s.
          bind_res (env_define env var v s) (\<lambda>u.
          return v))))
        else if op = Symbol ''lambda'' then
          (case args of
             [] \<Rightarrow> raise IndexError s
           | ps # body_exprs \<Rightarrow>
              bind_res (lift (iterate ps) s) (\<lambda>ps s.
              bind_res (lift (param_names ps) s) (\<lambda>names s.
                if env < length (envs s) then
                  (case new_closure names (lambda_body body_exprs) (env_id (envs s ! env)) s of
                     (closure_obj, s) \<Rightarrow> return (Closure closure_obj) s)
                else None)))
        else if op = Symbol ''begin'' then
          eval_body (eval_expr3 depth) args env NoneVal s
        else if op = Symbol ''let'' then
          (case args of
             [] \<Rightarrow> raise IndexError s
           | binding_list # body_exprs \<Rightarrow>
              (case new_env3 env s of (let_env, s) \<Rightarrow>
                 bind_res (lift (iterate binding_list) s) (\<lambda>bs s.
                 bind_res (bind_let (eval_expr3 depth) bs env let_env s) (\<lambda>u.
                 eval_body (eval_expr3 depth) body_exprs let_env NoneVal))))
        else if op = Symbol ''set!'' then
          bind_res (lift (unpack_args args) s) (\<lambda>(var_sym, val_expr) s.
          bind_res (eval_expr3 depth val_expr env s) (\<lambda>v s.
          bind_res (lift (symbol_value var_sym) s) (\<lambda>var s.
          bind_res (env_update env var v s) (\<lambda>u.
          return v))))
        else
          bind_res (eval_expr3 depth op env s) (\<lambda>proc s.
            case proc of
              Builtin f \<Rightarrow>
                bind_res (eval_args (eval_expr3 depth) args env s) (\<lambda>evaluated_args.
                lift (call_builtin f evaluated_args))
            | Closure c \<Rightarrow>
                if def_env_id c < length (envs s) then
                  (case new_env3 (def_env_id c) s of (call_env, s) \<Rightarrow>
                     bind_res (bind_params (eval_expr3 depth) (zip (params c) args) env call_env s) (\<lambda>u.
                     eval_expr3 depth (body c) call_env))
                else raise IndexError s
            | _ \<Rightarrow> raise (NotCallable proc) s)
     | Lst [] \<Rightarrow> return NoneVal s)"

fun run3 :: "nat \<Rightarrow> sexp list \<Rightarrow> environment3 interp \<Rightarrow> (unit, environment3) res" where
  "run3 depth [] s = return () s"
| "run3 depth (expr # exprs) s = bind_res (eval_expr3 depth expr 0 s) (\<lambda>v. run3 depth exprs)"

text \<open>What of a Grapher3.py state the other two programs have: every frame without \<open>is_global\<close>.\<close>

definition forget_global :: "environment3 interp \<Rightarrow> environment interp" where
  "forget_global s =
     \<lparr>closure_counter = closure_counter s, envs = map environment.truncate (envs s), closures = closures s\<rparr>"

definition forget_res :: "('a, environment3) res \<Rightarrow> ('a, environment) res" where
  "forget_res m = map_option (\<lambda>(r, s). (r, forget_global s)) m"

section \<open>Example programs\<close>

text \<open>\<open>(lambda (a) a)\<close> and \<open>(let ((x 1)) x)\<close>\<close>

definition id_lambda :: sexp where
  "id_lambda = Lst [Symbol ''lambda'', Lst [Symbol ''a''], Symbol ''a'']"

definition let_x :: sexp where
  "let_x = Lst [Symbol ''let'', Lst [Lst [Symbol ''x'', Num (PyInt 1)]], Symbol ''x'']"

text \<open>\<open>(define x 1) (define f (lambda () x))\<close> and \<open>(let ((x 2)) (f))\<close>\<close>

definition scoping_defs :: "sexp list" where
  "scoping_defs =
     [Lst [Symbol ''define'', Symbol ''x'', Num (PyInt 1)],
      Lst [Symbol ''define'', Symbol ''f'', Lst [Symbol ''lambda'', Lst [], Symbol ''x'']]]"

definition scoping_let :: sexp where
  "scoping_let = Lst [Symbol ''let'', Lst [Lst [Symbol ''x'', Num (PyInt 2)]], Lst [Symbol ''f'']]"

text \<open>The state in which the body of that let is evaluated, in frame 1.\<close>

definition scoping_closure :: closure where
  "scoping_closure = \<lparr>closure_id = 0, params = [], body = Symbol ''x'', def_env_id = 0\<rparr>"

definition scoping_state :: "environment interp" where
  "scoping_state =
     \<lparr>closure_counter = 1,
      envs = [\<lparr>env_id = 0, parent = None,
                bindings = initial_bindings @ [(''x'', Number (PyInt 1)), (''f'', Closure scoping_closure)]\<rparr>,
              \<lparr>env_id = 1, parent = Some 0, bindings = [(''x'', Number (PyInt 2))]\<rparr>],
      closures = [scoping_closure]\<rparr>"







text \<open>\<open>(define f (lambda (a) a))\<close>\<close>

definition define_f :: "sexp list" where
  "define_f = [Lst [Symbol ''define'', Symbol ''f'', id_lambda]]"



section \<open>Notions the statements below use\<close>

text \<open>The heads that \<open>eval_expr\<close> compares the first element of a list with.\<close>

definition special_forms :: "sexp set" where
  "special_forms = {Symbol ''define'', Symbol ''lambda'', Symbol ''begin'', Symbol ''let'', Symbol ''set!''}"

text \<open>
  \<open>extends s s'\<close>: the two registries of \<open>s'\<close> are those of \<open>s\<close> with nothing
  removed. Every frame of \<open>s\<close> is at its position with its \<open>env_id\<close> and its
  \<open>parent\<close> (its bindings may differ), a frame added since has its position as
  \<open>env_id\<close>, the closures of \<open>s\<close> are the first
  closures of \<open>s'\<close>, and the closures added since carry the values the global
  counter went through.
\<close>

definition extends :: "'a environment_scheme interp \<Rightarrow> 'a environment_scheme interp \<Rightarrow> bool" where
  "extends s s' \<longleftrightarrow>
     length (envs s) \<le> length (envs s') \<and>
     (\<forall>i<length (envs s). env_id (envs s' ! i) = env_id (envs s ! i) \<and> parent (envs s' ! i) = parent (envs s ! i)) \<and>
     (\<forall>i<length (envs s'). length (envs s) \<le> i \<longrightarrow> env_id (envs s' ! i) = i) \<and>
     (\<exists>cs. closures s' = closures s @ cs \<and> closure_counter s' = closure_counter s + length cs \<and>
        map closure_id cs = [closure_counter s ..< closure_counter s + length cs])"

text \<open>\<open>keeps ev\<close>: every call of the evaluator \<open>ev\<close> that returns has only extended the state.\<close>

definition keeps :: "(sexp \<Rightarrow> nat \<Rightarrow> 'a environment_scheme interp \<Rightarrow> ('b, 'a environment_scheme) res) \<Rightarrow> bool" where
  "keeps ev \<longleftrightarrow> (\<forall>e env s r s'. ev e env s = Some (r, s') \<longrightarrow> extends s s')"

text \<open>A number or a symbol: an expression whose evaluation is not a recursive call.\<close>

fun is_atom :: "sexp \<Rightarrow> bool" where
  "is_atom (Lst xs) = False"
| "is_atom e = True"

text \<open>\<open>same_frames s s'\<close>: no frame was added.\<close>

definition same_frames :: "'a environment_scheme interp \<Rightarrow> 'a environment_scheme interp \<Rightarrow> bool" where
  "same_frames s s' \<longleftrightarrow> length (envs s') = length (envs s)"

text \<open>
  The parent of every frame is a frame created before it. The stores of a run are of
  this kind (\<open>run_wf\<close> below), and on them the chain of parents of a frame ends.
\<close>

definition wf_envs :: "'a environment_scheme list \<Rightarrow> bool" where
  "wf_envs fs \<longleftrightarrow> (\<forall>i<length fs. \<forall>p. parent (fs ! i) = Some p \<longrightarrow> p < i)"

text \<open>
  The frames met by walking from frame \<open>i\<close> through successive parents, \<open>i\<close> first
  and the root last.
\<close>

function frame_chain :: "'a environment_scheme list \<Rightarrow> nat \<Rightarrow> nat list" where
  "frame_chain fs i =
     i # (case parent (fs ! i) of Some p \<Rightarrow> if p < i then frame_chain fs p else [] | None \<Rightarrow> [])"
  by pat_completeness auto
termination
  by (relation "measure snd") auto

declare frame_chain.simps [simp del]

text \<open>
  The specification of \<open>lookup\<close> and \<open>update\<close>, in its words: the nearest binding
  of \<open>x\<close> is in the first frame of the chain that binds \<open>x\<close>; \<open>lookup\<close> returns
  it, \<open>update\<close> overwrites it in that frame, and both fail with the unbound
  variable when no frame of the chain binds \<open>x\<close>.
\<close>

fun first_binding :: "'a environment_scheme list \<Rightarrow> string \<Rightarrow> nat list \<Rightarrow> (nat \<times> val) option" where
  "first_binding fs x [] = None"
| "first_binding fs x (j # js) =
     (case map_of (bindings (fs ! j)) x of Some v \<Rightarrow> Some (j, v) | None \<Rightarrow> first_binding fs x js)"

definition spec_lookup :: "'a environment_scheme list \<Rightarrow> nat \<Rightarrow> string \<Rightarrow> error + val" where
  "spec_lookup fs i x =
     (case first_binding fs x (frame_chain fs i) of
        Some (j, v) \<Rightarrow> Inr v
      | None \<Rightarrow> Inl (NameError x))"

definition spec_update :: "'a environment_scheme list \<Rightarrow> nat \<Rightarrow> string \<Rightarrow> val \<Rightarrow> error + 'a environment_scheme list" where
  "spec_update fs i x v =
     (case first_binding fs x (frame_chain fs i) of
        Some (j, old) \<Rightarrow> Inr (fs[j := (fs ! j)\<lparr>bindings := AList.update x v (bindings (fs ! j))\<rparr>])
      | None \<Rightarrow> Inl (NameError x))"

text \<open>\<open>grows s s'\<close>: \<open>extends s s'\<close>, and the parents of \<open>s'\<close> are earlier frames if those of \<open>s\<close> are.\<close>

definition grows :: "'a environment_scheme interp \<Rightarrow> 'a environment_scheme interp \<Rightarrow> bool" where
  "grows s s' \<longleftrightarrow> extends s s' \<and> (wf_envs (envs s) \<longrightarrow> wf_envs (envs s'))"

text \<open>\<open>keeps_wf ev\<close>: so does every call of \<open>ev\<close> in a frame of the state.\<close>

definition keeps_wf :: "(sexp \<Rightarrow> nat \<Rightarrow> 'a environment_scheme interp \<Rightarrow> ('b, 'a environment_scheme) res) \<Rightarrow> bool" where
  "keeps_wf ev \<longleftrightarrow> (\<forall>e env s r s'. env < length (envs s) \<and> ev e env s = Some (r, s') \<longrightarrow> grows s s')"

text \<open>\<open>agrees ev3 ev\<close>: the evaluator \<open>ev3\<close> on Grapher3.py states does what \<open>ev\<close> does once \<open>is_global\<close> is forgotten.\<close>

definition agrees :: "(sexp \<Rightarrow> nat \<Rightarrow> environment3 interp \<Rightarrow> (val, environment3) res) \<Rightarrow>
    (sexp \<Rightarrow> nat \<Rightarrow> environment interp \<Rightarrow> (val, environment) res) \<Rightarrow> bool" where
  "agrees ev3 ev \<longleftrightarrow> (\<forall>e env s. forget_res (ev3 e env s) = ev e env (forget_global s))"

text \<open>The syntax of a binding \<open>(x a)\<close>, and a binding table after \<open>define\<close> of each name in turn.\<close>

definition binding_of :: "string \<times> sexp \<times> val \<Rightarrow> sexp" where
  "binding_of b = (case b of (x, a, v) \<Rightarrow> Lst [Symbol x, a])"

definition install :: "(string \<times> sexp \<times> val) list \<Rightarrow> (string \<times> val) list \<Rightarrow> (string \<times> val) list" where
  "install bs al = fold (\<lambda>(x, a, v). AList.update x v) bs al"

text \<open>A value that is a closure is one of the closures \<open>cs\<close>.\<close>

definition val_ok :: "closure list \<Rightarrow> val \<Rightarrow> bool" where
  "val_ok cs v \<longleftrightarrow> (case v of Closure c \<Rightarrow> c \<in> set cs | _ \<Rightarrow> True)"

text \<open>Every closure bound in a frame is in the interpreter's list of closures.\<close>

definition registered :: "'a environment_scheme interp \<Rightarrow> bool" where
  "registered s \<longleftrightarrow> (\<forall>e\<in>set (envs s). \<forall>b\<in>set (bindings e). val_ok (closures s) (snd b))"

text \<open>
  \<open>keeps_registered ev\<close>: from such a state, a call of \<open>ev\<close> that returns leaves such
  a state, and a closure it returns is in the list too.
\<close>

definition keeps_registered :: "(sexp \<Rightarrow> nat \<Rightarrow> 'a environment_scheme interp \<Rightarrow> (val, 'a environment_scheme) res) \<Rightarrow> bool" where
  "keeps_registered ev \<longleftrightarrow>
     (\<forall>e env s r s'. registered s \<and> ev e env s = Some (r, s') \<longrightarrow>
        registered s' \<and> (\<forall>v. r = Inr v \<longrightarrow> val_ok (closures s') v))"

section \<open>Results of the monadic steps\<close>

lemma bind_res_Some:
  "bind_res m f = Some (r, s') \<longleftrightarrow>
     (\<exists>e. m = Some (Inl e, s') \<and> r = Inl e) \<or> (\<exists>v s1. m = Some (Inr v, s1) \<and> f v s1 = Some (r, s'))"
  by (auto simp: bind_res_def split: option.splits sum.splits prod.splits)

lemma bind_resE:
  assumes "bind_res m f = Some (r, s')"
  obtains (err) e where "m = Some (Inl e, s')" "r = Inl e"
  | (ok) v s1 where "m = Some (Inr v, s1)" "f v s1 = Some (r, s')"
  using assms by (auto simp: bind_res_Some)

lemma bind_res_simps [simp]:
  "bind_res None f = None"
  "bind_res (Some (Inl e, s)) f = Some (Inl e, s)"
  "bind_res (Some (Inr v, s)) f = f v s"
  "bind_res (return v s) f = f v s"
  "bind_res (raise e s) f = raise e s"
  "bind_res (lift (Inr v) s) f = f v s"
  "bind_res (lift (Inl e) s) f = raise e s"
  by (simp_all add: bind_res_def return_def raise_def lift_def)

lemma eval_expr_0 [simp]: "eval_expr 0 expr env s = None"
  by simp

lemma eval_expr_Num [simp]: "eval_expr (Suc n) (Num k) env s = return (Number k) s"
  by simp

lemma eval_expr_Symbol [simp]: "eval_expr (Suc n) (Symbol x) env s = env_lookup env x s"
  by simp

lemma eval_expr_Nil [simp]: "eval_expr (Suc n) (Lst []) env s = return NoneVal s"
  by simp

lemma eval_expr_define:
  "eval_expr (Suc n) (Lst (Symbol ''define'' # args)) env s =
     bind_res (lift (unpack_args args) s) (\<lambda>(var_symbol, val_expr) s.
     bind_res (eval_expr n val_expr env s) (\<lambda>v s.
     bind_res (lift (symbol_value var_symbol) s) (\<lambda>var s.
     bind_res (env_define env var v s) (\<lambda>u.
     return v))))"
  by simp

lemma eval_expr_lambda:
  "eval_expr (Suc n) (Lst (Symbol ''lambda'' # args)) env s =
     (case args of
        [] \<Rightarrow> raise IndexError s
      | ps # body_exprs \<Rightarrow>
         bind_res (lift (iterate ps) s) (\<lambda>ps s.
         bind_res (lift (param_names ps) s) (\<lambda>names s.
           if env < length (envs s) then
             (case new_closure names (lambda_body body_exprs) (env_id (envs s ! env)) s of
                (closure_obj, s) \<Rightarrow> return (Closure closure_obj) s)
           else None)))"
  by simp

lemma eval_expr_begin:
  "eval_expr (Suc n) (Lst (Symbol ''begin'' # args)) env s = eval_body (eval_expr n) args env NoneVal s"
  by simp

lemma eval_expr_let:
  "eval_expr (Suc n) (Lst (Symbol ''let'' # args)) env s =
     (case args of
        [] \<Rightarrow> raise IndexError s
      | binding_list # body_exprs \<Rightarrow>
         (case new_env env s of (let_env, s) \<Rightarrow>
            bind_res (lift (iterate binding_list) s) (\<lambda>bs s.
            bind_res (bind_let (eval_expr n) bs env let_env s) (\<lambda>u.
            eval_body (eval_expr n) body_exprs let_env NoneVal))))"
  by simp

lemma eval_expr_set:
  "eval_expr (Suc n) (Lst (Symbol ''set!'' # args)) env s =
     bind_res (lift (unpack_args args) s) (\<lambda>(var_sym, val_expr) s.
     bind_res (eval_expr n val_expr env s) (\<lambda>v s.
     bind_res (lift (symbol_value var_sym) s) (\<lambda>var s.
     bind_res (env_update env var v s) (\<lambda>u.
     return v))))"
  by simp

lemma eval_expr_call:
  "op \<notin> special_forms \<Longrightarrow>
   eval_expr (Suc n) (Lst (op # args)) env s =
     bind_res (eval_expr n op env s) (\<lambda>proc s.
       case proc of
         Builtin f \<Rightarrow>
           bind_res (eval_args (eval_expr n) args env s) (\<lambda>evaluated_args.
           lift (call_builtin f evaluated_args))
       | Closure c \<Rightarrow>
           if def_env_id c < length (envs s) then
             (case new_env (def_env_id c) s of (call_env, s) \<Rightarrow>
                bind_res (bind_params (eval_expr n) (zip (params c) args) env call_env s) (\<lambda>u.
                eval_expr n (body c) call_env))
           else raise IndexError s
       | _ \<Rightarrow> raise (NotCallable proc) s)"
  by (simp add: special_forms_def)

lemma eval_expr_shapes:
  obtains (Num) k where "expr = Num k"
  | (Symbol) x where "expr = Symbol x"
  | (Nil) "expr = Lst []"
  | (Define) args where "expr = Lst (Symbol ''define'' # args)"
  | (Lambda) args where "expr = Lst (Symbol ''lambda'' # args)"
  | (Begin) args where "expr = Lst (Symbol ''begin'' # args)"
  | (Let) args where "expr = Lst (Symbol ''let'' # args)"
  | (Set) args where "expr = Lst (Symbol ''set!'' # args)"
  | (Call) op args where "expr = Lst (op # args)" "op \<notin> special_forms"
proof (cases expr)
  case (Lst xs)
  then show ?thesis
    using that(3-9) by (cases xs) (auto simp: special_forms_def)
qed (use that in auto)

declare eval_expr.simps(2) [simp del]

lemma extends_refl [simp]: "extends s s"
  by (simp add: extends_def)

lemma extends_trans: "extends s s1 \<Longrightarrow> extends s1 s2 \<Longrightarrow> extends s s2"
proof -
  assume a: "extends s s1" and b: "extends s1 s2"
  from a obtain cs1 where 1: "closures s1 = closures s @ cs1"
    "closure_counter s1 = closure_counter s + length cs1"
    "map closure_id cs1 = [closure_counter s ..< closure_counter s + length cs1]"
    by (auto simp: extends_def)
  from b obtain cs2 where 2: "closures s2 = closures s1 @ cs2"
    "closure_counter s2 = closure_counter s1 + length cs2"
    "map closure_id cs2 = [closure_counter s1 ..< closure_counter s1 + length cs2]"
    by (auto simp: extends_def)
  have "[closure_counter s ..< closure_counter s + length cs1 + length cs2] =
        [closure_counter s ..< closure_counter s + length cs1] @
        [closure_counter s + length cs1 ..< closure_counter s + length cs1 + length cs2]"
    by (rule upt_add_eq_append) simp
  with 1 2 have "closures s2 = closures s @ (cs1 @ cs2) \<and>
      closure_counter s2 = closure_counter s + length (cs1 @ cs2) \<and>
      map closure_id (cs1 @ cs2) = [closure_counter s ..< closure_counter s + length (cs1 @ cs2)]"
    by (simp add: add.assoc)
  then have "\<exists>cs. closures s2 = closures s @ cs \<and> closure_counter s2 = closure_counter s + length cs \<and>
        map closure_id cs = [closure_counter s ..< closure_counter s + length cs]"
    by blast
  moreover from a b have "length (envs s) \<le> length (envs s2)"
    by (simp add: extends_def)
  moreover from a b have "\<forall>i<length (envs s). env_id (envs s2 ! i) = env_id (envs s ! i) \<and> parent (envs s2 ! i) = parent (envs s ! i)"
    by (simp add: extends_def)
  moreover have "\<forall>i<length (envs s2). length (envs s) \<le> i \<longrightarrow> env_id (envs s2 ! i) = i"
  proof (intro allI impI)
    fix i assume i: "i < length (envs s2)" "length (envs s) \<le> i"
    show "env_id (envs s2 ! i) = i"
    proof (cases "i < length (envs s1)")
      case True
      with b have "env_id (envs s2 ! i) = env_id (envs s1 ! i)" by (simp add: extends_def)
      also from a True i have "\<dots> = i" by (simp add: extends_def)
      finally show ?thesis .
    next
      case False
      with b i show ?thesis by (simp add: extends_def)
    qed
  qed
  ultimately show ?thesis
    unfolding extends_def by blast
qed

lemma define_var_Some:
  "define_var fs i x v = Some fs' \<longleftrightarrow>
     i < length fs \<and> fs' = fs[i := (fs ! i)\<lparr>bindings := AList.update x v (bindings (fs ! i))\<rparr>]"
  by (auto simp: define_var_def)

lemma update_Some:
  assumes "update fs i x v = Some r"
  shows "r = Inl (NameError x) \<or>
      (\<exists>j<length fs. map_of (bindings (fs ! j)) x \<noteq> None \<and>
         r = Inr (fs[j := (fs ! j)\<lparr>bindings := AList.update x v (bindings (fs ! j))\<rparr>]))"
  using assms
proof (induction rule: update.raw_induct[rotated 1, consumes 1, case_names step])
  case (step upd fs self var v y)
  then show ?case
    by (auto simp: define_var_def split: if_splits option.splits)
qed

lemma env_define_extends: "env_define env x v s = Some (r, s') \<Longrightarrow> extends s s'"
  by (auto simp: env_define_def define_var_Some extends_def nth_list_update split: option.splits)

lemma env_update_extends: "env_update env x v s = Some (r, s') \<Longrightarrow> extends s s'"
  by (auto simp: env_update_def extends_def nth_list_update split: option.splits sum.splits dest!: update_Some)

lemma env_lookup_same: "env_lookup env x s = Some (r, s') \<Longrightarrow> s' = s"
  by (auto simp: env_lookup_def split: option.splits)

lemma new_env_eq:
  "new_env p s = (length (envs s), s\<lparr>envs := envs s @ [\<lparr>env_id = length (envs s), parent = Some p, bindings = []\<rparr>]\<rparr>)"
  by (simp add: new_env_def)

lemma new_closure_eq:
  "new_closure ps b e s =
     (\<lparr>closure_id = closure_counter s, params = ps, body = b, def_env_id = e\<rparr>,
      s\<lparr>closure_counter := closure_counter s + 1,
        closures := closures s @ [\<lparr>closure_id = closure_counter s, params = ps, body = b, def_env_id = e\<rparr>]\<rparr>)"
  by (simp add: new_closure_def Let_def)

lemma new_env_extends: "new_env p s = (h, s') \<Longrightarrow> extends s s'"
  by (auto simp: new_env_def extends_def Let_def nth_append)

lemma new_closure_extends: "new_closure ps b e s = (c, s') \<Longrightarrow> extends s s'"
  by (auto simp: new_closure_def extends_def Let_def)

lemma lift_Some: "lift x s = Some (r, s') \<longleftrightarrow> r = x \<and> s' = s"
  by (auto simp: lift_def)

lemma return_Some: "return v s = Some (r, s') \<longleftrightarrow> r = Inr v \<and> s' = s"
  by (auto simp: return_def)

lemma raise_Some: "raise e s = Some (r, s') \<longleftrightarrow> r = Inl e \<and> s' = s"
  by (auto simp: raise_def)

lemmas res_Some = bind_res_Some lift_Some return_Some raise_Some

lemma keepsD: "keeps ev \<Longrightarrow> ev e env s = Some (r, s') \<Longrightarrow> extends s s'"
  by (auto simp: keeps_def)

lemma bind_res_extends:
  assumes "bind_res m f = Some (r, s')"
    and "\<And>r1 s1. m = Some (r1, s1) \<Longrightarrow> extends s s1"
    and "\<And>v s1. f v s1 = Some (r, s') \<Longrightarrow> extends s1 s'"
  shows "extends s s'"
  using assms by (auto elim!: bind_resE intro: extends_trans)

lemma lift_extends: "lift x s = Some (r, s') \<Longrightarrow> extends s s'"
  by (simp add: lift_Some)

lemma return_extends: "return x s = Some (r, s') \<Longrightarrow> extends s s'"
  by (simp add: return_Some)

lemma raise_extends: "raise x s = Some (r, s') \<Longrightarrow> extends s s'"
  by (simp add: raise_Some)

lemmas prim_extends = lift_extends return_extends raise_extends env_define_extends env_update_extends

lemma eval_body_extends:
  assumes "keeps ev"
  shows "eval_body ev es env res s = Some (r, s') \<Longrightarrow> extends s s'"
proof (induction es arbitrary: res s)
  case Nil
  then show ?case by (simp add: return_Some)
next
  case (Cons e es)
  from Cons.prems show ?case
    by (auto elim!: bind_res_extends dest: keepsD[OF assms] Cons.IH)
qed

lemma bind_let_extends:
  assumes "keeps ev"
  shows "bind_let ev bs env let_env s = Some (r, s') \<Longrightarrow> extends s s'"
proof (induction bs arbitrary: s)
  case Nil
  then show ?case by (simp add: return_Some)
next
  case (Cons b bs)
  from Cons.prems show ?case
    by (auto elim!: bind_res_extends dest: keepsD[OF assms] prim_extends Cons.IH)
qed

lemma eval_args_extends:
  assumes "keeps ev"
  shows "eval_args ev as env s = Some (r, s') \<Longrightarrow> extends s s'"
proof (induction as arbitrary: s r s')
  case Nil
  then show ?case by (simp add: return_Some)
next
  case (Cons a as)
  from Cons.prems show ?case
    by (auto elim!: bind_res_extends dest: keepsD[OF assms] prim_extends Cons.IH)
qed

lemma bind_params_extends:
  assumes "keeps ev"
  shows "bind_params ev ps env call_env s = Some (r, s') \<Longrightarrow> extends s s'"
proof (induction ps arbitrary: s)
  case Nil
  then show ?case by (simp add: return_Some)
next
  case (Cons p ps)
  from Cons.prems show ?case
    by (cases p) (auto elim!: bind_res_extends dest: keepsD[OF assms] prim_extends Cons.IH)
qed

lemma eval_expr_keeps: "keeps (eval_expr n)"
proof (induction n)
  case 0
  show ?case by (simp add: keeps_def)
next
  case (Suc n)
  note IH = keepsD[OF Suc]
  note ne = new_env_extends[OF new_env_eq]
  note loops = eval_body_extends[OF Suc] bind_let_extends[OF Suc] eval_args_extends[OF Suc] bind_params_extends[OF Suc]
  show ?case
    unfolding keeps_def
  proof (intro allI impI)
    fix expr env s r s'
    assume ev: "eval_expr (Suc n) expr env s = Some (r, s')"
    show "extends s s'"
    proof (cases expr rule: eval_expr_shapes)
      case (Num k)
      with ev show ?thesis by (simp add: return_Some)
    next
      case (Symbol x)
      with ev show ?thesis by (auto dest: env_lookup_same)
    next
      case Nil
      with ev show ?thesis by (simp add: return_Some)
    next
      case (Define args)
      with ev show ?thesis
        by (auto simp: eval_expr_define elim!: bind_res_extends dest: IH prim_extends)
    next
      case (Lambda args)
      with ev show ?thesis
        by (auto simp: eval_expr_lambda res_Some new_closure_eq extends_def split: if_splits list.splits)
    next
      case (Begin args)
      with ev show ?thesis
        by (auto simp: eval_expr_begin dest: loops)
    next
      case (Let args)
      with ev show ?thesis
        apply (simp add: eval_expr_let new_env_eq split: list.splits)
         apply (simp add: raise_Some)
        apply (rule extends_trans[OF ne])
        apply (auto elim!: bind_res_extends dest: loops prim_extends)
        done
    next
      case (Set args)
      with ev show ?thesis
        by (auto simp: eval_expr_set elim!: bind_res_extends dest: IH prim_extends)
    next
      case (Call op args)
      with ev show ?thesis
        apply (simp add: eval_expr_call)
        apply (erule bind_res_extends)
         apply (erule IH)
        subgoal for v s1
          apply (cases v)
             apply (auto simp: new_env_eq elim!: bind_res_extends dest: loops prim_extends IH split: if_splits)
          apply (rule extends_trans[OF ne])
          apply (auto simp: new_env_eq elim!: bind_res_extends dest: loops prim_extends IH split: if_splits)
          done
        done
    qed
  qed
qed


section \<open>What a let, a call and a lambda add to the registries\<close>

lemma eval_expr_extends: "eval_expr n expr env s = Some (r, s') \<Longrightarrow> extends s s'"
  using eval_expr_keeps by (rule keepsD)

lemma run_extends: "run n exprs s = Some (r, s') \<Longrightarrow> extends s s'"
proof (induction exprs arbitrary: s)
  case Nil
  then show ?case by (simp add: return_Some)
next
  case (Cons e es)
  from Cons.prems show ?case
    by (auto elim!: bind_res_extends dest: eval_expr_extends Cons.IH)
qed

lemma extends_env_ids:
  assumes "extends s s'" and "map env_id (envs s) = [0..<length (envs s)]"
  shows "map env_id (envs s') = [0..<length (envs s')]"
proof (rule nth_equalityI)
  show "length (map env_id (envs s')) = length [0..<length (envs s')]" by simp
next
  fix i assume "i < length (map env_id (envs s'))"
  then have i: "i < length (envs s')" by simp
  show "map env_id (envs s') ! i = [0..<length (envs s')] ! i"
  proof (cases "i < length (envs s)")
    case True
    with assms(1) have "env_id (envs s' ! i) = env_id (envs s ! i)" by (simp add: extends_def)
    also from True have "\<dots> = map env_id (envs s) ! i" by simp
    also from True have "\<dots> = i" by (simp add: assms(2))
    finally show ?thesis using i by simp
  next
    case False
    with assms(1) i show ?thesis by (simp add: extends_def)
  qed
qed

lemma extends_frame:
  "extends s s' \<Longrightarrow> i < length (envs s) \<Longrightarrow>
     i < length (envs s') \<and> env_id (envs s' ! i) = env_id (envs s ! i) \<and> parent (envs s' ! i) = parent (envs s ! i)"
  by (auto simp: extends_def)

lemma eval_expr_let_Cons:
  "eval_expr (Suc n) (Lst (Symbol ''let'' # binding_list # body_exprs)) env s =
     bind_res (lift (iterate binding_list)
                 (s\<lparr>envs := envs s @ [\<lparr>env_id = length (envs s), parent = Some env, bindings = []\<rparr>]\<rparr>))
       (\<lambda>bs s1. bind_res (bind_let (eval_expr n) bs env (length (envs s)) s1)
       (\<lambda>u. eval_body (eval_expr n) body_exprs (length (envs s)) NoneVal))"
  by (simp add: eval_expr_let new_env_eq)

lemma let_adds_frame:
  assumes "eval_expr (Suc n) (Lst (Symbol ''let'' # binding_list # body_exprs)) env s = Some (r, s')"
  shows "length (envs s) < length (envs s') \<and> env_id (envs s' ! length (envs s)) = length (envs s) \<and>
         parent (envs s' ! length (envs s)) = Some env"
proof -
  let ?s1 = "s\<lparr>envs := envs s @ [\<lparr>env_id = length (envs s), parent = Some env, bindings = []\<rparr>]\<rparr>"
  from assms have "extends ?s1 s'"
    unfolding eval_expr_let_Cons
    by (auto elim!: bind_res_extends
        dest: bind_let_extends[OF eval_expr_keeps] eval_body_extends[OF eval_expr_keeps] prim_extends)
  from extends_frame[OF this, of "length (envs s)"] show ?thesis
    by simp
qed

lemma same_frames_refl [simp]: "same_frames s s"
  by (simp add: same_frames_def)

lemma bind_res_same_frames:
  assumes "bind_res m f = Some (r, s')"
    and "\<And>r1 s1. m = Some (r1, s1) \<Longrightarrow> same_frames s s1"
    and "\<And>v s1. m = Some (Inr v, s1) \<Longrightarrow> f v s1 = Some (r, s') \<Longrightarrow> same_frames s1 s'"
  shows "same_frames s s'"
  using assms by (fastforce elim!: bind_resE simp: same_frames_def)

lemma eval_expr_atom: "eval_expr n e env s = Some (r, s') \<Longrightarrow> is_atom e \<Longrightarrow> s' = s"
  by (cases n; cases e) (auto simp: return_Some dest: env_lookup_same)

lemma eval_expr_atom_same_frames: "eval_expr n e env s = Some (r, s') \<Longrightarrow> is_atom e \<Longrightarrow> same_frames s s'"
  by (auto dest: eval_expr_atom)

lemma env_define_same_frames: "env_define env x v s = Some (r, s') \<Longrightarrow> same_frames s s'"
  by (auto simp: env_define_def define_var_Some same_frames_def split: option.splits)

lemma lift_same_frames: "lift x s = Some (r, s') \<Longrightarrow> same_frames s s'"
  by (simp add: lift_Some)

lemma unpack_args_Inr: "unpack_args xs = Inr (a, b) \<longleftrightarrow> xs = [a, b]"
  by (cases xs rule: unpack_args.cases) auto

lemma unpack_binding_Inr: "unpack_binding b = Inr (var, ve) \<longleftrightarrow> b = Lst [var, ve]"
  by (cases b) (auto simp: unpack_args_Inr)

lemma bind_let_atoms:
  assumes "\<forall>var ve. Lst [var, ve] \<in> set bs \<longrightarrow> is_atom ve"
  shows "bind_let (eval_expr n) bs env let_env s = Some (r, s') \<Longrightarrow> same_frames s s'"
  using assms
proof (induction bs arbitrary: s)
  case Nil
  then show ?case by (simp add: return_Some)
next
  case (Cons b bs)
  have tl: "\<forall>var ve. Lst [var, ve] \<in> set bs \<longrightarrow> is_atom ve"
    using Cons.prems(2) by simp
  from Cons.prems(1) show ?case
    apply simp
    apply (erule bind_res_same_frames)
     apply (simp add: lift_Some)
    apply (clarsimp simp: lift_Some)
    apply (erule bind_res_same_frames)
     apply (erule eval_expr_atom_same_frames)
    using Cons.prems(2) apply (metis unpack_binding_Inr list.set_intros(1))
    apply (erule bind_res_same_frames)
     apply (simp add: lift_Some)
    apply (erule bind_res_same_frames)
     apply (erule env_define_same_frames)
    apply (erule Cons.IH [OF _ tl])
    done
qed

lemma eval_body_atoms:
  assumes "\<forall>e\<in>set es. is_atom e"
  shows "eval_body (eval_expr n) es env res s = Some (r, s') \<Longrightarrow> same_frames s s'"
  using assms
proof (induction es arbitrary: res s)
  case Nil
  then show ?case by (simp add: return_Some)
next
  case (Cons e es)
  from Cons.prems show ?case
    apply simp
    apply (erule bind_res_same_frames)
     apply (erule eval_expr_atom_same_frames, simp)
    apply (erule Cons.IH, simp)
    done
qed

lemma bind_params_atoms:
  assumes "\<forall>e\<in>snd ` set ps. is_atom e"
  shows "bind_params (eval_expr n) ps env call_env s = Some (r, s') \<Longrightarrow> same_frames s s'"
  using assms
proof (induction ps arbitrary: s)
  case Nil
  then show ?case by (simp add: return_Some)
next
  case (Cons p ps)
  from Cons.prems show ?case
    apply (cases p)
    apply simp
    apply (erule bind_res_same_frames)
     apply (erule eval_expr_atom_same_frames, simp)
    apply (erule bind_res_same_frames)
     apply (erule env_define_same_frames)
    apply (erule Cons.IH, simp)
    done
qed

lemma let_adds_one_frame:
  assumes "eval_expr (Suc n) (Lst (Symbol ''let'' # binding_list # body_exprs)) env s = Some (r, s')"
    and "\<forall>bs var ve. binding_list = Lst bs \<and> Lst [var, ve] \<in> set bs \<longrightarrow> is_atom ve"
    and "\<forall>e\<in>set body_exprs. is_atom e"
  shows "length (envs s') = Suc (length (envs s))"
proof (cases binding_list)
  case (Lst bs)
  with assms(2) have bs: "\<forall>var ve. Lst [var, ve] \<in> set bs \<longrightarrow> is_atom ve" by blast
  let ?s1 = "s\<lparr>envs := envs s @ [\<lparr>env_id = length (envs s), parent = Some env, bindings = []\<rparr>]\<rparr>"
  from assms(1) Lst have "same_frames ?s1 s'"
    unfolding eval_expr_let_Cons
    apply simp
    apply (erule bind_res_same_frames)
     apply (erule bind_let_atoms[OF bs])
    apply (erule eval_body_atoms[OF assms(3)])
    done
  then show ?thesis by (simp add: same_frames_def)
qed (use assms(1) in \<open>auto simp: eval_expr_let_Cons raise_Some\<close>)

lemma eval_expr_call_closure:
  assumes "op \<notin> special_forms" and "eval_expr n op env s = Some (Inr (Closure c), s1)"
    and "def_env_id c < length (envs s1)"
  shows "eval_expr (Suc n) (Lst (op # args)) env s =
     bind_res (bind_params (eval_expr n) (zip (params c) args) env (length (envs s1))
                 (s1\<lparr>envs := envs s1 @ [\<lparr>env_id = length (envs s1), parent = Some (def_env_id c), bindings = []\<rparr>]\<rparr>))
       (\<lambda>u. eval_expr n (body c) (length (envs s1)))"
  using assms by (simp add: eval_expr_call new_env_eq)

lemma call_adds_frame:
  assumes "op \<notin> special_forms" and "eval_expr n op env s = Some (Inr (Closure c), s1)"
    and "def_env_id c < length (envs s1)"
    and "eval_expr (Suc n) (Lst (op # args)) env s = Some (r, s')"
  shows "length (envs s1) < length (envs s') \<and> env_id (envs s' ! length (envs s1)) = length (envs s1) \<and>
         parent (envs s' ! length (envs s1)) = Some (def_env_id c)"
proof -
  let ?s2 = "s1\<lparr>envs := envs s1 @ [\<lparr>env_id = length (envs s1), parent = Some (def_env_id c), bindings = []\<rparr>]\<rparr>"
  from assms(4) have "extends ?s2 s'"
    unfolding eval_expr_call_closure[OF assms(1-3)]
    by (auto elim!: bind_res_extends dest: bind_params_extends[OF eval_expr_keeps] eval_expr_extends)
  from extends_frame[OF this, of "length (envs s1)"] show ?thesis
    by simp
qed

lemma call_adds_one_frame:
  assumes "op \<notin> special_forms" and "eval_expr n op env s = Some (Inr (Closure c), s1)"
    and "def_env_id c < length (envs s1)"
    and "eval_expr (Suc n) (Lst (op # args)) env s = Some (r, s')"
    and "\<forall>e\<in>set args. is_atom e" and "is_atom (body c)"
  shows "length (envs s') = Suc (length (envs s1))"
proof -
  have "\<forall>e\<in>snd ` set (zip (params c) args). is_atom e"
    using assms(5) by (auto dest: set_zip_rightD)
  note bp = bind_params_atoms[OF this]
  let ?s2 = "s1\<lparr>envs := envs s1 @ [\<lparr>env_id = length (envs s1), parent = Some (def_env_id c), bindings = []\<rparr>]\<rparr>"
  from assms(4) have "same_frames ?s2 s'"
    unfolding eval_expr_call_closure[OF assms(1-3)]
    apply -
    apply (erule bind_res_same_frames)
     apply (erule bp)
    apply (erule eval_expr_atom_same_frames[OF _ assms(6)])
    done
  then show ?thesis by (simp add: same_frames_def)
qed

lemma lambda_adds_one_closure:
  assumes "eval_expr (Suc n) (Lst (Symbol ''lambda'' # args)) env s = Some (Inr v, s')"
  shows "\<exists>c. v = Closure c \<and> closures s' = closures s @ [c] \<and> envs s' = envs s \<and>
             closure_id c = closure_counter s \<and> def_env_id c = env_id (envs s ! env)"
  using assms
  by (auto simp: eval_expr_lambda res_Some new_closure_eq split: list.splits if_splits)

lemma SchemeInterpreter_env_ids: "map env_id (envs (SchemeInterpreter c)) = [0..<length (envs (SchemeInterpreter c))]"
  by (simp add: SchemeInterpreter_def)

lemma lambda_def_env:
  assumes "eval_expr (Suc n) (Lst (Symbol ''lambda'' # args)) env s = Some (Inr v, s')"
    and "map env_id (envs s) = [0..<length (envs s)]"
  shows "\<exists>c. v = Closure c \<and> def_env_id c = env"
proof -
  from assms(1) have lt: "env < length (envs s)"
    by (auto simp: eval_expr_lambda res_Some split: list.splits if_splits)
  then have "env_id (envs s ! env) = map env_id (envs s) ! env" by simp
  also have "\<dots> = env" using lt by (simp add: assms(2))
  finally show ?thesis using lambda_adds_one_closure[OF assms(1)] by auto
qed

section \<open>Applying something that is not a procedure\<close>

text \<open>
  C4. In an application whose head is none of the five keywords, when the operator
  evaluates to a value that is neither a builtin nor a closure, the application ends
  with \<open>NotCallable\<close> carrying that value, in the state the evaluation of the
  operator left. In particular \<open>(1 2 3)\<close> ends with \<open>NotCallable\<close> of the number 1.
\<close>

theorem not_callable:
  "(\<forall>depth op args env s v s1.
      op \<notin> special_forms \<and> eval_expr depth op env s = Some (Inr v, s1) \<and>
      (\<forall>f. v \<noteq> Builtin f) \<and> (\<forall>c. v \<noteq> Closure c) \<longrightarrow>
      eval_expr (Suc depth) (Lst (op # args)) env s = Some (Inl (NotCallable v), s1)) \<and>
   eval_expr 2 (Lst [Num (PyInt 1), Num (PyInt 2), Num (PyInt 3)]) 0 (SchemeInterpreter 0) =
     Some (Inl (NotCallable (Number (PyInt 1))), SchemeInterpreter 0)"
proof (intro conjI allI impI)
  fix depth op args env and s s1 :: "environment interp" and v
  assume a: "op \<notin> special_forms \<and> eval_expr depth op env s = Some (Inr v, s1) \<and>
      (\<forall>f. v \<noteq> Builtin f) \<and> (\<forall>c. v \<noteq> Closure c)"
  then show "eval_expr (Suc depth) (Lst (op # args)) env s = Some (Inl (NotCallable v), s1)"
    by (cases v) (simp_all add: eval_expr_call raise_def)
next
  show "eval_expr 2 (Lst [Num (PyInt 1), Num (PyInt 2), Num (PyInt 3)]) 0 (SchemeInterpreter 0) =
     Some (Inl (NotCallable (Number (PyInt 1))), SchemeInterpreter 0)"
    by code_simp
qed

theorem not_callable_witness:
  "eval_expr 2 (Lst [Lst [], Num (PyInt 5)]) 0 (SchemeInterpreter 0) =
     Some (Inl (NotCallable NoneVal), SchemeInterpreter 0)"
proof -
  have "Lst [] \<notin> special_forms \<and>
        eval_expr 1 (Lst []) 0 (SchemeInterpreter 0) = Some (Inr NoneVal, SchemeInterpreter 0) \<and>
        (\<forall>f. NoneVal \<noteq> Builtin f) \<and> (\<forall>c. NoneVal \<noteq> Closure c)"
    by (simp add: special_forms_def return_def)
  with not_callable
  have "eval_expr (Suc 1) (Lst (Lst [] # [Num (PyInt 5)])) 0 (SchemeInterpreter 0) =
          Some (Inl (NotCallable NoneVal), SchemeInterpreter 0)"
    by blast
  then show ?thesis
    by (simp add: numeral_2_eq_2)
qed

section \<open>The registries only grow\<close>

text \<open>
  C5. \<open>new_env\<close> always returns: the new frame is appended, its handle is the
  number of frames there were, and it records the parent it was given. A call of
  \<open>eval_expr\<close> that returns, with a value or with an exception, leaves every
  frame at its position with its \<open>env_id\<close> and \<open>parent\<close> and every closure at
  its position (\<open>extends\<close>), so in a run the frame at position \<open>i\<close> has handle
  \<open>i\<close>. A let of at least a binding list adds its frame (the first one after the
  frames there were, with the frame of the let as parent) and so does the call of a
  closure (after the frames there were once the operator was evaluated); the frame
  is the only one added when the expressions evaluated on the way are numbers and
  symbols. A lambda that returns adds exactly one closure and no frame.
\<close>

theorem registries_append_only:
  "(\<forall>p s. new_env p s =
      (length (envs s), s\<lparr>envs := envs s @ [\<lparr>env_id = length (envs s), parent = Some p, bindings = []\<rparr>]\<rparr>)) \<and>
   (\<forall>n expr env s r s'. eval_expr n expr env s = Some (r, s') \<longrightarrow> extends s s') \<and>
   (\<forall>n exprs c r s'. run n exprs (SchemeInterpreter c) = Some (r, s') \<longrightarrow>
      map env_id (envs s') = [0..<length (envs s')]) \<and>
   (\<forall>n binding_list body_exprs env s r s'.
      eval_expr (Suc n) (Lst (Symbol ''let'' # binding_list # body_exprs)) env s = Some (r, s') \<longrightarrow>
      length (envs s) < length (envs s') \<and> parent (envs s' ! length (envs s)) = Some env \<and>
      ((\<forall>bs var ve. binding_list = Lst bs \<and> Lst [var, ve] \<in> set bs \<longrightarrow> is_atom ve) \<and>
       (\<forall>e\<in>set body_exprs. is_atom e) \<longrightarrow> length (envs s') = Suc (length (envs s)))) \<and>
   (\<forall>n op args env s c s1 r s'.
      op \<notin> special_forms \<and> eval_expr n op env s = Some (Inr (Closure c), s1) \<and>
      def_env_id c < length (envs s1) \<and>
      eval_expr (Suc n) (Lst (op # args)) env s = Some (r, s') \<longrightarrow>
      length (envs s1) < length (envs s') \<and> parent (envs s' ! length (envs s1)) = Some (def_env_id c) \<and>
      ((\<forall>e\<in>set args. is_atom e) \<and> is_atom (body c) \<longrightarrow> length (envs s') = Suc (length (envs s1)))) \<and>
   (\<forall>n args env s v s'.
      eval_expr (Suc n) (Lst (Symbol ''lambda'' # args)) env s = Some (Inr v, s') \<longrightarrow>
      (\<exists>c. v = Closure c \<and> closures s' = closures s @ [c] \<and> envs s' = envs s))"
proof (intro conjI allI impI)
  fix p and s :: "environment interp"
  show "new_env p s =
      (length (envs s), s\<lparr>envs := envs s @ [\<lparr>env_id = length (envs s), parent = Some p, bindings = []\<rparr>]\<rparr>)"
    by (rule new_env_eq)
next
  fix n expr env and s s' :: "environment interp" and r
  assume "eval_expr n expr env s = Some (r, s')"
  then show "extends s s'" by (rule eval_expr_extends)
next
  fix n exprs c r and s' :: "environment interp"
  assume "run n exprs (SchemeInterpreter c) = Some (r, s')"
  then have "extends (SchemeInterpreter c) s'" by (rule run_extends)
  then show "map env_id (envs s') = [0..<length (envs s')]"
    using SchemeInterpreter_env_ids by (rule extends_env_ids)
next
  fix n binding_list body_exprs env and s s' :: "environment interp" and r
  assume a: "eval_expr (Suc n) (Lst (Symbol ''let'' # binding_list # body_exprs)) env s = Some (r, s')"
  from let_adds_frame[OF a]
  show "length (envs s) < length (envs s')" and "parent (envs s' ! length (envs s)) = Some env"
    by simp_all
  assume "(\<forall>bs var ve. binding_list = Lst bs \<and> Lst [var, ve] \<in> set bs \<longrightarrow> is_atom ve) \<and>
       (\<forall>e\<in>set body_exprs. is_atom e)"
  then show "length (envs s') = Suc (length (envs s))"
    using let_adds_one_frame[OF a] by blast
next
  fix n op args env and s s1 s' :: "environment interp" and c r
  assume a: "op \<notin> special_forms \<and> eval_expr n op env s = Some (Inr (Closure c), s1) \<and>
      def_env_id c < length (envs s1) \<and>
      eval_expr (Suc n) (Lst (op # args)) env s = Some (r, s')"
  then have 1: "op \<notin> special_forms" and 2: "eval_expr n op env s = Some (Inr (Closure c), s1)"
    and 3: "def_env_id c < length (envs s1)"
    and 4: "eval_expr (Suc n) (Lst (op # args)) env s = Some (r, s')"
    by simp_all
  from call_adds_frame[OF 1 2 3 4]
  show "length (envs s1) < length (envs s')" and "parent (envs s' ! length (envs s1)) = Some (def_env_id c)"
    by simp_all
  assume "(\<forall>e\<in>set args. is_atom e) \<and> is_atom (body c)"
  then show "length (envs s') = Suc (length (envs s1))"
    using call_adds_one_frame[OF 1 2 3 4] by blast
next
  fix n args env and s s' :: "environment interp" and v
  assume "eval_expr (Suc n) (Lst (Symbol ''lambda'' # args)) env s = Some (Inr v, s')"
  from lambda_adds_one_closure[OF this]
  show "\<exists>c. v = Closure c \<and> closures s' = closures s @ [c] \<and> envs s' = envs s"
    by blast
qed

lemma eval_let_x: "eval_expr 2 let_x 0 (SchemeInterpreter 0) =
   Some (Inr (Number (PyInt 1)), \<lparr>closure_counter = 0,
      envs = [\<lparr>env_id = 0, parent = None, bindings = initial_bindings\<rparr>,
              \<lparr>env_id = 1, parent = Some 0, bindings = [(''x'', Number (PyInt 1))]\<rparr>],
      closures = []\<rparr>)"
  by code_simp

lemma eval_id_lambda: "eval_expr 1 id_lambda 0 (SchemeInterpreter 0) =
   Some (Inr (Closure \<lparr>closure_id = 0, params = [''a''], body = Symbol ''a'', def_env_id = 0\<rparr>),
      \<lparr>closure_counter = 1,
      envs = [\<lparr>env_id = 0, parent = None, bindings = initial_bindings\<rparr>],
      closures = [\<lparr>closure_id = 0, params = [''a''], body = Symbol ''a'', def_env_id = 0\<rparr>]\<rparr>)"
  by code_simp

lemma eval_call_id_lambda: "eval_expr 2 (Lst [id_lambda, Num (PyInt 7)]) 0 (SchemeInterpreter 0) =
   Some (Inr (Number (PyInt 7)), 
      \<lparr>closure_counter = 1,
      envs = [\<lparr>env_id = 0, parent = None, bindings = initial_bindings\<rparr>,
              \<lparr>env_id = 1, parent = Some 0, bindings = [(''a'', Number (PyInt 7))]\<rparr>],
      closures = [\<lparr>closure_id = 0, params = [''a''], body = Symbol ''a'', def_env_id = 0\<rparr>]\<rparr>)"
  by code_simp

lemma run_let_x: "run 2 [let_x] (SchemeInterpreter 0) =
   Some (Inr (), \<lparr>closure_counter = 0,
      envs = [\<lparr>env_id = 0, parent = None, bindings = initial_bindings\<rparr>,
              \<lparr>env_id = 1, parent = Some 0, bindings = [(''x'', Number (PyInt 1))]\<rparr>],
      closures = []\<rparr>)"
  by code_simp

theorem registries_append_only_witness:
  "fst (new_env 0 (SchemeInterpreter 0)) = 1 \<and>
   (\<exists>r s'. eval_expr 2 let_x 0 (SchemeInterpreter 0) = Some (r, s') \<and>
      extends (SchemeInterpreter 0) s' \<and> length (envs s') = 2 \<and> parent (envs s' ! 1) = Some 0) \<and>
   (\<exists>r s'. run 2 [let_x] (SchemeInterpreter 0) = Some (r, s') \<and> map env_id (envs s') = [0, 1]) \<and>
   (\<exists>c s1 r s'. eval_expr 1 id_lambda 0 (SchemeInterpreter 0) = Some (Inr (Closure c), s1) \<and>
      closures s1 = [c] \<and> envs s1 = envs (SchemeInterpreter 0) \<and>
      eval_expr 2 (Lst [id_lambda, Num (PyInt 7)]) 0 (SchemeInterpreter 0) = Some (r, s') \<and>
      length (envs s') = 2 \<and> parent (envs s' ! 1) = Some (def_env_id c))"
proof -
  note T = registries_append_only
  note T_new = T[THEN conjunct1, rule_format]
  note T_ext = T[THEN conjunct2, THEN conjunct1, rule_format]
  note T_run = T[THEN conjunct2, THEN conjunct2, THEN conjunct1, rule_format]
  note T_let = T[THEN conjunct2, THEN conjunct2, THEN conjunct2, THEN conjunct1, rule_format]
  note T_call = T[THEN conjunct2, THEN conjunct2, THEN conjunct2, THEN conjunct2, THEN conjunct1, rule_format]
  note T_lam = T[THEN conjunct2, THEN conjunct2, THEN conjunct2, THEN conjunct2, THEN conjunct2, rule_format]
  let ?I = "SchemeInterpreter 0"
  have len: "length (envs ?I) = 1" and clo: "closures ?I = []"
    by (simp_all add: SchemeInterpreter_def)
  have A: "fst (new_env 0 ?I) = 1"
    by (simp add: T_new len)
  obtain s1 where e1: "eval_expr (Suc 1) (Lst (Symbol ''let'' # Lst [Lst [Symbol ''x'', Num (PyInt 1)]] # [Symbol ''x''])) 0 ?I
      = Some (Inr (Number (PyInt 1)), s1)"
    using eval_let_x by (simp add: let_x_def numeral_2_eq_2)
  have atoms: "(\<forall>bs var ve. Lst [Lst [Symbol ''x'', Num (PyInt 1)]] = Lst bs \<and> Lst [var, ve] \<in> set bs \<longrightarrow> is_atom ve) \<and>
       (\<forall>e\<in>set [Symbol ''x'']. is_atom e)"
    by simp
  have "extends ?I s1"
    using e1 by (rule T_ext)
  moreover have "parent (envs s1 ! length (envs ?I)) = Some 0" "length (envs s1) = Suc (length (envs ?I))"
    using T_let[OF e1] atoms by simp_all
  ultimately have B: "\<exists>r s'. eval_expr 2 let_x 0 ?I = Some (r, s') \<and>
      extends ?I s' \<and> length (envs s') = 2 \<and> parent (envs s' ! 1) = Some 0"
    using e1 by (auto simp: let_x_def numeral_2_eq_2 len)
  obtain s2 where e2: "run 2 [let_x] ?I = Some (Inr (), s2)"
    using run_let_x by simp
  then have "map env_id (envs s2) = [0..<length (envs s2)]"
    by (rule T_run)
  moreover from run_let_x e2 have "length (envs s2) = 2"
    by auto
  ultimately have C: "\<exists>r s'. run 2 [let_x] ?I = Some (r, s') \<and> map env_id (envs s') = [0, 1]"
    using e2 by (auto simp: upt_conv_Cons)
  obtain c s3 where e3: "eval_expr (Suc 0) (Lst (Symbol ''lambda'' # [Lst [Symbol ''a''], Symbol ''a''])) 0 ?I = Some (Inr (Closure c), s3)"
    and c: "body c = Symbol ''a''" "def_env_id c = 0"
    using eval_id_lambda by (simp add: id_lambda_def)
  from T_lam[OF e3] have l: "closures s3 = [c]" "envs s3 = envs ?I"
    by (simp_all add: clo)
  obtain r4 s4 where e4: "eval_expr (Suc (Suc 0)) (Lst (id_lambda # [Num (PyInt 7)])) 0 ?I = Some (r4, s4)"
    using eval_call_id_lambda by (simp add: numeral_2_eq_2)
  have hyp: "id_lambda \<notin> special_forms \<and> eval_expr (Suc 0) id_lambda 0 ?I = Some (Inr (Closure c), s3) \<and>
      def_env_id c < length (envs s3) \<and>
      eval_expr (Suc (Suc 0)) (Lst (id_lambda # [Num (PyInt 7)])) 0 ?I = Some (r4, s4)"
    using e3 e4 c l by (simp add: id_lambda_def special_forms_def len)
  have atoms2: "(\<forall>e\<in>set [Num (PyInt 7)]. is_atom e) \<and> is_atom (body c)"
    by (simp add: c)
  have "parent (envs s4 ! length (envs s3)) = Some (def_env_id c)"
      "length (envs s4) = Suc (length (envs s3))"
    using T_call[OF hyp] atoms2 by simp_all
  with e3 e4 l have D: "\<exists>c s1 r s'. eval_expr 1 id_lambda 0 ?I = Some (Inr (Closure c), s1) \<and>
      closures s1 = [c] \<and> envs s1 = envs ?I \<and>
      eval_expr 2 (Lst [id_lambda, Num (PyInt 7)]) 0 ?I = Some (r, s') \<and>
      length (envs s') = 2 \<and> parent (envs s' ! 1) = Some (def_env_id c)"
    by (auto simp: id_lambda_def numeral_2_eq_2 len)
  from A B C D show ?thesis
    by blast
qed

section \<open>Lexical scoping\<close>

text \<open>
  C1. When the operator of an application evaluates to a closure, the frame made for
  the call has the closure's \<open>def_env_id\<close> as parent, whatever the frame \<open>env\<close> of
  the caller is, and the result of the application is that of the closure's body
  in the new frame, once the parameters are bound there. The \<open>def_env_id\<close> of a
  closure is the frame in which its lambda was evaluated. After
  \<open>(define x 1) (define f (lambda () x))\<close>, \<open>(let ((x 2)) (f))\<close> returns 1.
\<close>

theorem lexical_scoping:
  "(\<forall>n op args env s c s1 r s'.
      op \<notin> special_forms \<and> eval_expr n op env s = Some (Inr (Closure c), s1) \<and>
      def_env_id c < length (envs s1) \<and>
      eval_expr (Suc n) (Lst (op # args)) env s = Some (r, s') \<longrightarrow>
      parent (envs s' ! length (envs s1)) = Some (def_env_id c) \<and>
      bind_res (bind_params (eval_expr n) (zip (params c) args) env (length (envs s1))
                  (snd (new_env (def_env_id c) s1)))
        (\<lambda>u. eval_expr n (body c) (length (envs s1))) = Some (r, s')) \<and>
   (\<forall>n args env s v s'.
      eval_expr (Suc n) (Lst (Symbol ''lambda'' # args)) env s = Some (Inr v, s') \<and>
      map env_id (envs s) = [0..<length (envs s)] \<longrightarrow>
      (\<exists>c. v = Closure c \<and> def_env_id c = env)) \<and>
   map_option fst (bind_res (run 2 scoping_defs (SchemeInterpreter 0)) (\<lambda>u. eval_expr 3 scoping_let 0)) =
     Some (Inr (Number (PyInt 1)))"
proof (intro conjI allI impI)
  fix n op args env and s s1 s' :: "environment interp" and c r
  assume a: "op \<notin> special_forms \<and> eval_expr n op env s = Some (Inr (Closure c), s1) \<and>
      def_env_id c < length (envs s1) \<and>
      eval_expr (Suc n) (Lst (op # args)) env s = Some (r, s')"
  then have 1: "op \<notin> special_forms" and 2: "eval_expr n op env s = Some (Inr (Closure c), s1)"
    and 3: "def_env_id c < length (envs s1)"
    and 4: "eval_expr (Suc n) (Lst (op # args)) env s = Some (r, s')"
    by simp_all
  from call_adds_frame[OF 1 2 3 4]
  show "parent (envs s' ! length (envs s1)) = Some (def_env_id c)"
    by simp
  from 4 show "bind_res (bind_params (eval_expr n) (zip (params c) args) env (length (envs s1))
                  (snd (new_env (def_env_id c) s1)))
        (\<lambda>u. eval_expr n (body c) (length (envs s1))) = Some (r, s')"
    by (simp add: eval_expr_call_closure[OF 1 2 3] new_env_eq)
next
  fix n args env and s s' :: "environment interp" and v
  assume "eval_expr (Suc n) (Lst (Symbol ''lambda'' # args)) env s = Some (Inr v, s') \<and>
      map env_id (envs s) = [0..<length (envs s)]"
  then show "\<exists>c. v = Closure c \<and> def_env_id c = env"
    using lambda_def_env by blast
next
  show "map_option fst (bind_res (run 2 scoping_defs (SchemeInterpreter 0)) (\<lambda>u. eval_expr 3 scoping_let 0)) =
     Some (Inr (Number (PyInt 1)))"
    by code_simp
qed

theorem lexical_scoping_witness:
  "(\<exists>s'. eval_expr 2 (Lst [Symbol ''f'']) 1 scoping_state = Some (Inr (Number (PyInt 1)), s') \<and>
      parent (envs s' ! 2) = Some 0 \<and>
      eval_expr 1 (Symbol ''x'') 2 (snd (new_env 0 scoping_state)) = Some (Inr (Number (PyInt 1)), s')) \<and>
   (\<exists>c s'. eval_expr 1 (Lst [Symbol ''lambda'', Lst [], Symbol ''x'']) 1 scoping_state = Some (Inr (Closure c), s') \<and>
      def_env_id c = 1) \<and>
   bind_res (run 2 scoping_defs (SchemeInterpreter 0))
     (\<lambda>u s. bind_let (eval_expr 1) [Lst [Symbol ''x'', Num (PyInt 2)]] 0 1 (snd (new_env 0 s))) =
     Some (Inr (), scoping_state)"
proof -
  note T = lexical_scoping
  note T_call = T[THEN conjunct1, rule_format]
  note T_lam = T[THEN conjunct2, THEN conjunct1, rule_format]
  have len: "length (envs scoping_state) = 2"
    by (simp add: scoping_state_def)
  have c: "def_env_id scoping_closure = 0" "params scoping_closure = []" "body scoping_closure = Symbol ''x''"
    by (simp_all add: scoping_closure_def)
  have op: "eval_expr (Suc 0) (Symbol ''f'') 1 scoping_state = Some (Inr (Closure scoping_closure), scoping_state)"
    by code_simp
  obtain s' where call: "eval_expr (Suc (Suc 0)) (Lst (Symbol ''f'' # [])) 1 scoping_state = Some (Inr (Number (PyInt 1)), s')"
  proof -
    have "map_option fst (eval_expr (Suc (Suc 0)) (Lst (Symbol ''f'' # [])) 1 scoping_state) = Some (Inr (Number (PyInt 1)))"
      by code_simp
    then show ?thesis using that by auto
  qed
  have hyp: "Symbol ''f'' \<notin> special_forms \<and>
      eval_expr (Suc 0) (Symbol ''f'') 1 scoping_state = Some (Inr (Closure scoping_closure), scoping_state) \<and>
      def_env_id scoping_closure < length (envs scoping_state) \<and>
      eval_expr (Suc (Suc 0)) (Lst (Symbol ''f'' # [])) 1 scoping_state = Some (Inr (Number (PyInt 1)), s')"
    using op call by (simp add: special_forms_def c len)
  from T_call[OF hyp] call
  have A: "\<exists>s'. eval_expr 2 (Lst [Symbol ''f'']) 1 scoping_state = Some (Inr (Number (PyInt 1)), s') \<and>
      parent (envs s' ! 2) = Some 0 \<and>
      eval_expr 1 (Symbol ''x'') 2 (snd (new_env 0 scoping_state)) = Some (Inr (Number (PyInt 1)), s')"
    by (auto simp: c len numeral_2_eq_2 return_def)
  obtain c s2 where lam: "eval_expr (Suc 0) (Lst (Symbol ''lambda'' # [Lst [], Symbol ''x''])) 1 scoping_state = Some (Inr (Closure c), s2)"
    by (simp add: eval_expr_lambda new_closure_eq len return_def)
  have ids: "map env_id (envs scoping_state) = [0..<length (envs scoping_state)]"
    by (simp add: scoping_state_def upt_conv_Cons)
  from T_lam[of 0 "[Lst [], Symbol ''x'']" 1 scoping_state "Closure c" s2] lam ids
  have "def_env_id c = 1" by auto
  with lam have B: "\<exists>c s'. eval_expr 1 (Lst [Symbol ''lambda'', Lst [], Symbol ''x'']) 1 scoping_state = Some (Inr (Closure c), s') \<and>
      def_env_id c = 1"
    by auto
  have C: "bind_res (run 2 scoping_defs (SchemeInterpreter 0))
     (\<lambda>u s. bind_let (eval_expr 1) [Lst [Symbol ''x'', Num (PyInt 2)]] 0 1 (snd (new_env 0 s))) =
     Some (Inr (), scoping_state)"
    by code_simp
  from A B C show ?thesis by blast
qed

section \<open>Division\<close>


lemma call_builtin_Div_zero: "to_rat y = 0 \<Longrightarrow> call_builtin Div [Number x, Number y] = Inl ZeroDivisionError"
  by (simp add: py_truediv_def)

lemma call_builtin_Div_nonzero:
  "to_rat y \<noteq> 0 \<Longrightarrow> call_builtin Div [Number x, Number y] = Inr (Number (PyFloat (to_rat x / to_rat y)))"
  by (simp add: py_truediv_def)




section \<open>A closure applied to the wrong number of arguments\<close>









section \<open>The global closure counter\<close>

lemma run_closure_ids:
  assumes "run n exprs (SchemeInterpreter c0) = Some (r, s')"
  shows "map closure_id (closures s') = [c0..<closure_counter s'] \<and> closure_counter s' = c0 + length (closures s')"
proof -
  from run_extends[OF assms] obtain cs where
    "closures s' = closures (SchemeInterpreter c0) @ cs"
    "closure_counter s' = closure_counter (SchemeInterpreter c0) + length cs"
    "map closure_id cs = [closure_counter (SchemeInterpreter c0)..<closure_counter (SchemeInterpreter c0) + length cs]"
    by (auto simp: extends_def)
  then show ?thesis
    by (simp add: SchemeInterpreter_def)
qed

text \<open>
  C9. The run of an interpreter that starts when the global counter is \<open>c0\<close> gives
  its closures the identifiers \<open>c0\<close>, \<open>c0 + 1\<close>, ... and leaves the counter after
  the last one, while its frames have the handles 0, 1, ... whatever \<open>c0\<close> is. So
  when a second interpreter runs the same program after the run of a first one, it
  starts at the counter the first run left: every closure of the second run has an
  identifier greater than every closure of the first, and the root frame of both
  has handle 0.
\<close>

theorem closure_ids_global:
  "(\<forall>n exprs c0 r s'.
      run n exprs (SchemeInterpreter c0) = Some (r, s') \<longrightarrow>
      map closure_id (closures s') = [c0..<c0 + length (closures s')] \<and>
      closure_counter s' = c0 + length (closures s') \<and>
      map env_id (envs s') = [0..<length (envs s')]) \<and>
   (\<forall>n exprs c0 r1 s1 r2 s2.
      run n exprs (SchemeInterpreter c0) = Some (r1, s1) \<and>
      run n exprs (SchemeInterpreter (closure_counter s1)) = Some (r2, s2) \<longrightarrow>
      (\<forall>c1\<in>set (closures s1). \<forall>c2\<in>set (closures s2). closure_id c1 < closure_id c2) \<and>
      env_id (envs s1 ! 0) = 0 \<and> env_id (envs s2 ! 0) = 0) \<and>
   (\<forall>c0. env_id (envs (SchemeInterpreter c0) ! 0) = 0 \<and> closure_counter (SchemeInterpreter c0) = c0)"
proof (intro conjI allI impI ballI)
  fix n exprs c0 r and s' :: "environment interp"
  assume a: "run n exprs (SchemeInterpreter c0) = Some (r, s')"
  from run_closure_ids[OF a]
  show "map closure_id (closures s') = [c0..<c0 + length (closures s')]"
    and "closure_counter s' = c0 + length (closures s')"
    by simp_all
  from extends_env_ids[OF run_extends[OF a] SchemeInterpreter_env_ids]
  show "map env_id (envs s') = [0..<length (envs s')]" .
next
  fix n exprs c0 r1 r2 and s1 s2 :: "environment interp" and c1 c2
  assume a: "run n exprs (SchemeInterpreter c0) = Some (r1, s1) \<and>
      run n exprs (SchemeInterpreter (closure_counter s1)) = Some (r2, s2)"
  assume c1: "c1 \<in> set (closures s1)" and c2: "c2 \<in> set (closures s2)"
  from a have 1: "map closure_id (closures s1) = [c0..<closure_counter s1]"
    and 2: "map closure_id (closures s2) = [closure_counter s1..<closure_counter s2]"
    using run_closure_ids by blast+
  from c1 have "closure_id c1 \<in> set (map closure_id (closures s1))" by simp
  then have "closure_id c1 < closure_counter s1" unfolding 1 by simp
  moreover from c2 have "closure_id c2 \<in> set (map closure_id (closures s2))" by simp
  then have "closure_counter s1 \<le> closure_id c2" unfolding 2 by simp
  ultimately show "closure_id c1 < closure_id c2" by simp
next
  fix n exprs c0 r1 r2 and s1 s2 :: "environment interp"
  assume a: "run n exprs (SchemeInterpreter c0) = Some (r1, s1) \<and>
      run n exprs (SchemeInterpreter (closure_counter s1)) = Some (r2, s2)"
  have root: "env_id (envs s ! 0) = 0" if "run n exprs (SchemeInterpreter c) = Some (r, s)" for c r s
  proof -
    from run_extends[OF that] have "env_id (envs s ! 0) = env_id (envs (SchemeInterpreter c) ! 0)"
      by (simp add: extends_def SchemeInterpreter_def)
    then show ?thesis by (simp add: SchemeInterpreter_def)
  qed
  from a root show "env_id (envs s1 ! 0) = 0" by blast
  from a root show "env_id (envs s2 ! 0) = 0" by blast
qed (simp_all add: SchemeInterpreter_def)

theorem closure_ids_global_witness:
  "\<exists>s1 s2. run 2 define_f (SchemeInterpreter 0) = Some (Inr (), s1) \<and>
      run 2 define_f (SchemeInterpreter (closure_counter s1)) = Some (Inr (), s2) \<and>
      map closure_id (closures s1) = [0] \<and> map closure_id (closures s2) = [1] \<and>
      map env_id (envs s1) = [0] \<and> map env_id (envs s2) = [0]"
proof -
  note T1 = closure_ids_global[THEN conjunct1, rule_format]
  note T2 = closure_ids_global[THEN conjunct2, THEN conjunct1, rule_format]
  let ?r1 = "run 2 define_f (SchemeInterpreter 0)"
  have "?r1 \<noteq> None \<and> fst (the ?r1) = Inr () \<and> closure_counter (snd (the ?r1)) = 1 \<and>
        length (closures (snd (the ?r1))) = 1 \<and> length (envs (snd (the ?r1))) = 1"
    by code_simp
  then obtain s1 where r1: "?r1 = Some (Inr (), s1)" and cc: "closure_counter s1 = 1"
    and l1: "length (closures s1) = 1" "length (envs s1) = 1"
    by (cases ?r1) auto
  let ?r2 = "run 2 define_f (SchemeInterpreter 1)"
  have "?r2 \<noteq> None \<and> fst (the ?r2) = Inr () \<and>
        length (closures (snd (the ?r2))) = 1 \<and> length (envs (snd (the ?r2))) = 1"
    by code_simp
  then obtain s2 where r2: "?r2 = Some (Inr (), s2)"
    and l2: "length (closures s2) = 1" "length (envs s2) = 1"
    by (cases ?r2) auto
  from T1[OF r1] l1 have A: "map closure_id (closures s1) = [0]" "map env_id (envs s1) = [0]"
    by simp_all
  from T1[OF r2] l2 have B: "map closure_id (closures s2) = [1]" "map env_id (envs s2) = [0]"
    by simp_all
  have "run 2 define_f (SchemeInterpreter 0) = Some (Inr (), s1) \<and>
      run 2 define_f (SchemeInterpreter (closure_counter s1)) = Some (Inr (), s2)"
    using r1 r2 cc by simp
  from T2[OF this] r1 r2 cc A B show ?thesis
    by auto
qed

section \<open>The three programs evaluate alike\<close>

lemma eval_expr2_eq: "eval_expr2 n = eval_expr n"
proof (induction n)
  case 0
  show ?case by simp
next
  case (Suc n)
  show ?case
    by (simp only: eval_expr2.simps eval_expr.simps Suc)
qed

lemma run2_eq: "run2 n exprs = run n exprs"
proof (induction exprs)
  case Nil
  show ?case by (simp add: fun_eq_iff)
next
  case (Cons e es)
  show ?case by (simp add: fun_eq_iff eval_expr2_eq Cons)
qed

lemma forget_envs [simp]: "envs (forget_global s) = map environment.truncate (envs s)"
  and forget_closures [simp]: "closures (forget_global s) = closures s"
  and forget_counter [simp]: "closure_counter (forget_global s) = closure_counter s"
  by (simp_all add: forget_global_def)

lemma truncate_fields [simp]:
  "env_id (environment.truncate e) = env_id e"
  "parent (environment.truncate e) = parent e"
  "bindings (environment.truncate e) = bindings e"
  by (simp_all add: environment.truncate_def)

lemma lookup_truncate_1:
  assumes "lookup fs i x = Some y"
  shows "lookup (map environment.truncate fs) i x = Some y"
  using assms
proof (induction rule: lookup.raw_induct[rotated 1, consumes 1, case_names step])
  case (step lk fs self var y)
  then show ?case
    by (subst lookup.simps) (auto split: if_splits option.splits)
qed

lemma lookup_truncate_2:
  assumes "lookup gs i x = Some y"
  shows "gs = map environment.truncate fs \<Longrightarrow> lookup fs i x = Some y"
  using assms
proof (induction arbitrary: fs rule: lookup.raw_induct[rotated 1, consumes 1, case_names step])
  case (step lk gs self var y)
  then show ?case
    by (subst lookup.simps) (auto split: if_splits option.splits)
qed

lemma lookup_truncate: "lookup (map environment.truncate fs) i x = lookup fs i x"
proof (cases "lookup fs i x")
  case None
  then show ?thesis
    using lookup_truncate_2[of "map environment.truncate fs" i x _ fs]
    by (cases "lookup (map environment.truncate fs) i x") auto
next
  case (Some y)
  then show ?thesis by (simp add: lookup_truncate_1)
qed

lemma define_var_truncate:
  "define_var (map environment.truncate fs) i x v = map_option (map environment.truncate) (define_var fs i x v)"
  by (simp add: define_var_def map_update environment.truncate_def)

lemma update_truncate_1:
  assumes "update fs i x v = Some y"
  shows "update (map environment.truncate fs) i x v = Some (map_sum id (map environment.truncate) y)"
  using assms
proof (induction rule: update.raw_induct[rotated 1, consumes 1, case_names step])
  case (step upd fs self var v y)
  then show ?case
    by (subst update.simps) (auto simp: define_var_truncate id_def split: if_splits option.splits)
qed

lemma update_truncate_2:
  assumes "update gs i x v = Some y"
  shows "gs = map environment.truncate fs \<Longrightarrow> update fs i x v \<noteq> None"
  using assms
proof (induction arbitrary: fs rule: update.raw_induct[rotated 1, consumes 1, case_names step])
  case (step upd gs self var v y)
  then show ?case
    by (subst update.simps) (auto simp: define_var_def split: if_splits option.splits)
qed

lemma update_truncate:
  "update (map environment.truncate fs) i x v =
     map_option (map_sum id (map environment.truncate)) (update fs i x v)"
proof (cases "update fs i x v")
  case None
  then show ?thesis
    using update_truncate_2[of "map environment.truncate fs" i x v _ fs]
    by (cases "update (map environment.truncate fs) i x v") auto
next
  case (Some y)
  then show ?thesis by (simp add: update_truncate_1)
qed

lemma forget_res_simps [simp]:
  "forget_res None = None"
  "forget_res (Some (r, s)) = Some (r, forget_global s)"
  "forget_res (return v s) = return v (forget_global s)"
  "forget_res (raise e s) = raise e (forget_global s)"
  "forget_res (lift x s) = lift x (forget_global s)"
  by (simp_all add: forget_res_def return_def raise_def lift_def)

lemma forget_bind_res:
  assumes "\<And>v s1. forget_res (f v s1) = g v (forget_global s1)"
  shows "forget_res (bind_res m f) = bind_res (forget_res m) g"
  using assms by (auto simp: bind_res_def split: option.splits sum.splits prod.splits)

lemma forget_env_lookup: "forget_res (env_lookup env x s) = env_lookup env x (forget_global s)"
  by (simp add: env_lookup_def lookup_truncate split: option.splits)

lemma forget_set_envs:
  "forget_global (s\<lparr>envs := fs\<rparr>) = (forget_global s)\<lparr>envs := map environment.truncate fs\<rparr>"
  by (simp add: forget_global_def)

lemma forget_env_define: "forget_res (env_define env x v s) = env_define env x v (forget_global s)"
  by (auto simp: env_define_def define_var_truncate forget_set_envs split: option.splits)

lemma forget_env_update: "forget_res (env_update env x v s) = env_update env x v (forget_global s)"
  by (auto simp: env_update_def update_truncate forget_set_envs split: option.splits sum.splits)

lemma forget_new_env3:
  "new_env3 p s = (h, s') \<Longrightarrow> new_env p (forget_global s) = (h, forget_global s')"
  by (auto simp: new_env3_def new_env_def forget_global_def environment.truncate_def)

lemma forget_new_closure:
  "new_closure ps b e s = (c, s') \<Longrightarrow> new_closure ps b e (forget_global s) = (c, forget_global s')"
  by (auto simp: new_closure_def forget_global_def Let_def)

lemma agreesD: "agrees ev3 ev \<Longrightarrow> forget_res (ev3 e env s) = ev e env (forget_global s)"
  by (simp add: agrees_def)

lemma forget_eval_body:
  assumes "agrees ev3 ev"
  shows "forget_res (eval_body ev3 es env res s) = eval_body ev es env res (forget_global s)"
proof (induction es arbitrary: res s)
  case Nil
  show ?case by simp
next
  case (Cons e es)
  show ?case
    by (simp add: forget_bind_res[where g = "\<lambda>r. eval_body ev es env r"] Cons agreesD[OF assms])
qed

lemma forget_eval_args:
  assumes "agrees ev3 ev"
  shows "forget_res (eval_args ev3 as env s) = eval_args ev as env (forget_global s)"
proof (induction as arbitrary: s)
  case Nil
  show ?case by simp
next
  case (Cons a as)
  have inner: "forget_res (bind_res (eval_args ev3 as env s1) (\<lambda>vs. return (v # vs))) =
        bind_res (eval_args ev as env (forget_global s1)) (\<lambda>vs. return (v # vs))" for v s1
    by (simp add: forget_bind_res[where g = "\<lambda>vs. return (v # vs)"] Cons)
  show ?case
    by (simp add: forget_bind_res[where g = "\<lambda>v s. bind_res (eval_args ev as env s) (\<lambda>vs. return (v # vs))"]
        inner agreesD[OF assms])
qed

lemma forget_bind_params:
  assumes "agrees ev3 ev"
  shows "forget_res (bind_params ev3 ps env call_env s) = bind_params ev ps env call_env (forget_global s)"
proof (induction ps arbitrary: s)
  case Nil
  show ?case by simp
next
  case (Cons p ps)
  obtain x a where p: "p = (x, a)" by (cases p)
  have inner: "forget_res (bind_res (env_define call_env x v s1) (\<lambda>u. bind_params ev3 ps env call_env)) =
        bind_res (env_define call_env x v (forget_global s1)) (\<lambda>u. bind_params ev ps env call_env)" for v s1
    by (simp add: forget_bind_res[where g = "\<lambda>u. bind_params ev ps env call_env"] Cons forget_env_define)
  show ?case
    unfolding p
    by (simp add: forget_bind_res[where g = "\<lambda>v s. bind_res (env_define call_env x v s) (\<lambda>u. bind_params ev ps env call_env)"]
        inner agreesD[OF assms])
qed

lemma agree_bind:
  assumes "forget_res m = m'" and "\<And>v s1. forget_res (f v s1) = g v (forget_global s1)"
  shows "forget_res (bind_res m f) = bind_res m' g"
  using assms by (auto simp: bind_res_def split: option.splits sum.splits prod.splits)

lemma forget_bind_let:
  assumes "agrees ev3 ev"
  shows "forget_res (bind_let ev3 bs env let_env s) = bind_let ev bs env let_env (forget_global s)"
proof (induction bs arbitrary: s)
  case Nil
  show ?case by simp
next
  case (Cons b bs)
  show ?case
    by (auto intro!: agree_bind simp: Cons agreesD[OF assms] forget_env_define)
qed

lemma eval_expr3_agrees: "agrees (eval_expr3 n) (eval_expr n)"
proof (induction n)
  case 0
  show ?case by (simp add: agrees_def)
next
  case (Suc n)
  note IH = agreesD[OF Suc]
  note loops = forget_eval_body[OF Suc] forget_eval_args[OF Suc] forget_bind_params[OF Suc] forget_bind_let[OF Suc]
  show ?case
    unfolding agrees_def
  proof (intro allI)
    fix expr env s
    show "forget_res (eval_expr3 (Suc n) expr env s) = eval_expr (Suc n) expr env (forget_global s)"
    proof (cases expr rule: eval_expr_shapes)
      case (Num k)
      then show ?thesis by simp
    next
      case (Symbol x)
      then show ?thesis by (simp add: forget_env_lookup)
    next
      case Nil
      then show ?thesis by simp
    next
      case (Define args)
      then show ?thesis
        by (auto simp: eval_expr_define IH forget_env_define intro!: agree_bind)
    next
      case (Lambda args)
      then show ?thesis
        by (auto simp: eval_expr_lambda new_closure_eq forget_global_def return_def intro!: agree_bind split: list.splits)
    next
      case (Begin args)
      then show ?thesis
        by (simp add: eval_expr_begin loops)
    next
      case (Let args)
      then show ?thesis
        by (auto simp: eval_expr_let new_env_eq new_env3_def loops forget_global_def environment.truncate_def
            intro!: agree_bind split: list.splits)
    next
      case (Set args)
      then show ?thesis
        by (auto simp: eval_expr_set IH forget_env_update intro!: agree_bind)
    next
      case (Call op args)
      then show ?thesis
        by (auto simp: eval_expr_call special_forms_def IH loops new_env_eq new_env3_def forget_global_def
            environment.truncate_def raise_def
            intro!: agree_bind split: val.splits)
    qed
  qed
qed

lemma forget_run3: "forget_res (run3 n exprs s) = run n exprs (forget_global s)"
proof (induction exprs arbitrary: s)
  case Nil
  show ?case by simp
next
  case (Cons e es)
  show ?case
    by (auto intro!: agree_bind simp: Cons agreesD[OF eval_expr3_agrees])
qed

text \<open>
  C8. \<open>eval_expr\<close> and \<open>run\<close> of Grapher2.py are those of Grapher.py. Those of
  Grapher3.py return the same value or raise the same exception and leave the same
  frames and closures, once the field \<open>is_global\<close>, which only the rendering reads,
  is forgotten; and a new interpreter of Grapher3.py is one of Grapher.py with that
  field.
\<close>

theorem evaluators_agree:
  "eval_expr2 n = eval_expr n \<and>
   run2 n exprs = run n exprs \<and>
   forget_res (eval_expr3 n expr env s3) = eval_expr n expr env (forget_global s3) \<and>
   forget_res (run3 n exprs s3) = run n exprs (forget_global s3) \<and>
   forget_global (SchemeInterpreter3 c) = SchemeInterpreter c"
  using eval_expr2_eq run2_eq agreesD[OF eval_expr3_agrees] forget_run3
  by (simp add: forget_global_def SchemeInterpreter3_def SchemeInterpreter_def environment.truncate_def)

section \<open>Lookup and update walk the chain of parents\<close>

lemma frame_chain_root: "parent (fs ! i) = None \<Longrightarrow> frame_chain fs i = [i]"
  by (subst frame_chain.simps) simp

lemma frame_chain_step: "parent (fs ! i) = Some p \<Longrightarrow> p < i \<Longrightarrow> frame_chain fs i = i # frame_chain fs p"
  by (subst frame_chain.simps) simp

lemma frame_chain_Cons: "\<exists>js. frame_chain fs i = i # js"
  by (subst frame_chain.simps) simp

lemma lookup_spec:
  assumes "wf_envs fs"
  shows "i < length fs \<Longrightarrow> lookup fs i x = Some (spec_lookup fs i x)"
proof (induction i rule: less_induct)
  case (less i)
  obtain js where js: "frame_chain fs i = i # js"
    using frame_chain_Cons by blast
  show ?case
  proof (cases "map_of (bindings (fs ! i)) x")
    case (Some v)
    with less.prems have "lookup fs i x = Some (Inr v)"
      by (subst lookup.simps) simp
    moreover from Some have "spec_lookup fs i x = Inr v"
      by (simp add: spec_lookup_def js)
    ultimately show ?thesis by simp
  next
    case None
    show ?thesis
    proof (cases "parent (fs ! i)")
      case N: None
      with None less.prems have "lookup fs i x = Some (Inl (NameError x))"
        by (subst lookup.simps) simp
      moreover from None N have "spec_lookup fs i x = Inl (NameError x)"
        by (simp add: spec_lookup_def frame_chain_root)
      ultimately show ?thesis by simp
    next
      case (Some p)
      with assms less.prems have p: "p < i" by (auto simp: wf_envs_def)
      with less.prems have "p < length fs" by simp
      note IH = less.IH[OF p this]
      from None Some less.prems have "lookup fs i x = lookup fs p x"
        by (subst lookup.simps) simp
      moreover from None have "spec_lookup fs i x = spec_lookup fs p x"
        by (simp add: spec_lookup_def frame_chain_step[OF Some p])
      ultimately show ?thesis using IH by simp
    qed
  qed
qed

lemma update_spec:
  assumes "wf_envs fs"
  shows "i < length fs \<Longrightarrow> update fs i x v = Some (spec_update fs i x v)"
proof (induction i rule: less_induct)
  case (less i)
  obtain js where js: "frame_chain fs i = i # js"
    using frame_chain_Cons by blast
  show ?case
  proof (cases "map_of (bindings (fs ! i)) x")
    case (Some old)
    with less.prems have "update fs i x v =
        Some (Inr (fs[i := (fs ! i)\<lparr>bindings := AList.update x v (bindings (fs ! i))\<rparr>]))"
      by (subst update.simps) (simp add: define_var_def)
    moreover from Some have "spec_update fs i x v =
        Inr (fs[i := (fs ! i)\<lparr>bindings := AList.update x v (bindings (fs ! i))\<rparr>])"
      by (simp add: spec_update_def js)
    ultimately show ?thesis by simp
  next
    case None
    show ?thesis
    proof (cases "parent (fs ! i)")
      case N: None
      with None less.prems have "update fs i x v = Some (Inl (NameError x))"
        by (subst update.simps) simp
      moreover from None N have "spec_update fs i x v = Inl (NameError x)"
        by (simp add: spec_update_def frame_chain_root)
      ultimately show ?thesis by simp
    next
      case (Some p)
      with assms less.prems have p: "p < i" by (auto simp: wf_envs_def)
      with less.prems have "p < length fs" by simp
      note IH = less.IH[OF p this]
      from None Some less.prems have "update fs i x v = update fs p x v"
        by (subst update.simps) simp
      moreover from None have "spec_update fs i x v = spec_update fs p x v"
        by (simp add: spec_update_def frame_chain_step[OF Some p])
      ultimately show ?thesis using IH by simp
    qed
  qed
qed

lemma frame_chain_hd: "hd (frame_chain fs i) = i" and frame_chain_nonempty: "frame_chain fs i \<noteq> []"
  using frame_chain_Cons[of fs i] by auto

lemma frame_chain_links:
  assumes "wf_envs fs"
  shows "i < length fs \<Longrightarrow>
     (\<forall>k. Suc k < length (frame_chain fs i) \<longrightarrow>
          parent (fs ! (frame_chain fs i ! k)) = Some (frame_chain fs i ! Suc k)) \<and>
     parent (fs ! last (frame_chain fs i)) = None \<and>
     (\<forall>j\<in>set (frame_chain fs i). j \<le> i)"
proof (induction i rule: less_induct)
  case (less i)
  show ?case
  proof (cases "parent (fs ! i)")
    case None
    then have "frame_chain fs i = [i]" by (rule frame_chain_root)
    with None show ?thesis by simp
  next
    case (Some p)
    with assms less.prems have p: "p < i" by (auto simp: wf_envs_def)
    with less.prems have pl: "p < length fs" by simp
    from Some p have c: "frame_chain fs i = i # frame_chain fs p" by (rule frame_chain_step)
    note IH = less.IH[OF p pl]
    have "parent (fs ! (frame_chain fs i ! k)) = Some (frame_chain fs i ! Suc k)"
      if "Suc k < length (frame_chain fs i)" for k
    proof (cases k)
      case 0
      with Some show ?thesis
        unfolding c using frame_chain_hd[of fs p] frame_chain_nonempty[of fs p]
        by (simp add: hd_conv_nth)
    next
      case (Suc k')
      with that IH show ?thesis unfolding c by simp
    qed
    moreover have "parent (fs ! last (frame_chain fs i)) = None"
      unfolding c using IH frame_chain_nonempty[of fs p] by simp
    moreover have "\<forall>j\<in>set (frame_chain fs i). j \<le> i"
      unfolding c using IH p by auto
    ultimately show ?thesis by blast
  qed
qed

lemma first_binding_None: "first_binding fs x js = None \<longleftrightarrow> (\<forall>j\<in>set js. map_of (bindings (fs ! j)) x = None)"
  by (induction js) (auto split: option.splits)

lemma first_binding_Some:
  "first_binding fs x js = Some (j, v) \<longleftrightarrow>
     (\<exists>k<length js. js ! k = j \<and> map_of (bindings (fs ! j)) x = Some v \<and>
        (\<forall>k'<k. map_of (bindings (fs ! (js ! k'))) x = None))"
proof (induction js)
  case Nil
  show ?case by simp
next
  case (Cons a js)
  show ?case
  proof (cases "map_of (bindings (fs ! a)) x")
    case None
    have "(\<exists>k<length (a # js). (a # js) ! k = j \<and> map_of (bindings (fs ! j)) x = Some v \<and>
        (\<forall>k'<k. map_of (bindings (fs ! ((a # js) ! k'))) x = None)) \<longleftrightarrow>
      (\<exists>k<length js. js ! k = j \<and> map_of (bindings (fs ! j)) x = Some v \<and>
        (\<forall>k'<k. map_of (bindings (fs ! (js ! k'))) x = None))" (is "?L \<longleftrightarrow> ?R")
    proof
      assume ?L
      then obtain k where k: "k < length (a # js)" "(a # js) ! k = j" "map_of (bindings (fs ! j)) x = Some v"
        "\<forall>k'<k. map_of (bindings (fs ! ((a # js) ! k'))) x = None" by blast
      with None obtain k0 where "k = Suc k0" by (cases k) auto
      with k show ?R by (intro exI[of _ k0]) auto
    next
      assume ?R
      then obtain k where k: "k < length js" "js ! k = j" "map_of (bindings (fs ! j)) x = Some v"
        "\<forall>k'<k. map_of (bindings (fs ! (js ! k'))) x = None" by blast
      with None show ?L by (intro exI[of _ "Suc k"]) (auto simp: less_Suc_eq_0_disj)
    qed
    with None Cons show ?thesis by simp
  next
    case (Some w)
    then show ?thesis
      by (auto intro: exI[of _ 0]) (case_tac k; auto)+
  qed
qed

lemma grows_refl [simp]: "grows s s"
  by (simp add: grows_def)

lemma grows_trans: "grows s s1 \<Longrightarrow> grows s1 s2 \<Longrightarrow> grows s s2"
  by (auto simp: grows_def intro: extends_trans)

lemma grows_length: "grows s s' \<Longrightarrow> i < length (envs s) \<Longrightarrow> i < length (envs s')"
  by (auto simp: grows_def extends_def)

lemma keeps_wfD: "keeps_wf ev \<Longrightarrow> env < length (envs s) \<Longrightarrow> ev e env s = Some (r, s') \<Longrightarrow> grows s s'"
  by (auto simp: keeps_wf_def)

lemma bind_res_grows:
  assumes "bind_res m f = Some (r, s')"
    and "\<And>r1 s1. m = Some (r1, s1) \<Longrightarrow> grows s s1"
    and "\<And>v s1. m = Some (Inr v, s1) \<Longrightarrow> grows s s1 \<Longrightarrow> f v s1 = Some (r, s') \<Longrightarrow> grows s1 s'"
  shows "grows s s'"
  using assms by (auto elim!: bind_resE intro: grows_trans)

lemma same_shape_grows:
  assumes "extends s s'" and "length (envs s') = length (envs s)"
  shows "grows s s'"
  using assms by (auto simp: grows_def extends_def wf_envs_def)

lemma env_define_grows:
  assumes "env_define env x v s = Some (r, s')"
  shows "grows s s'"
proof (rule same_shape_grows)
  show "extends s s'" using assms by (rule env_define_extends)
  show "length (envs s') = length (envs s)"
    using assms by (auto simp: env_define_def define_var_Some split: option.splits)
qed

lemma env_update_grows:
  assumes "env_update env x v s = Some (r, s')"
  shows "grows s s'"
proof (rule same_shape_grows)
  show "extends s s'" using assms by (rule env_update_extends)
  show "length (envs s') = length (envs s)"
    using assms by (auto simp: env_update_def split: option.splits sum.splits dest!: update_Some)
qed

lemma lift_grows: "lift x s = Some (r, s') \<Longrightarrow> grows s s'"
  by (simp add: lift_Some)

lemma return_grows: "return x s = Some (r, s') \<Longrightarrow> grows s s'"
  by (simp add: return_Some)

lemma raise_grows: "raise x s = Some (r, s') \<Longrightarrow> grows s s'"
  by (simp add: raise_Some)

lemma new_frame_grows:
  assumes "p < length (envs s)"
  shows "grows s (s\<lparr>envs := envs s @ [\<lparr>env_id = length (envs s), parent = Some p, bindings = []\<rparr>]\<rparr>)"
proof -
  have "extends s (s\<lparr>envs := envs s @ [\<lparr>env_id = length (envs s), parent = Some p, bindings = []\<rparr>]\<rparr>)"
    by (rule new_env_extends[OF new_env_eq])
  moreover have "wf_envs (envs s @ [\<lparr>env_id = length (envs s), parent = Some p, bindings = []\<rparr>])"
    if "wf_envs (envs s)"
    using that assms by (auto simp: wf_envs_def nth_append less_Suc_eq)
  ultimately show ?thesis by (simp add: grows_def)
qed

lemmas prim_grows = lift_grows return_grows raise_grows env_define_grows env_update_grows

lemma eval_body_grows:
  assumes "keeps_wf ev"
  shows "env < length (envs s) \<Longrightarrow> eval_body ev es env res s = Some (r, s') \<Longrightarrow> grows s s'"
proof (induction es arbitrary: res s)
  case Nil
  then show ?case by (simp add: return_Some)
next
  case (Cons e es)
  from Cons.prems(2) show ?case
    apply simp
    apply (erule bind_res_grows)
     apply (erule keeps_wfD[OF assms Cons.prems(1)])
    apply (erule Cons.IH[rotated])
    apply (erule grows_length[OF _ Cons.prems(1)])
    done
qed

lemma bind_let_grows:
  assumes "keeps_wf ev"
  shows "env < length (envs s) \<Longrightarrow> bind_let ev bs env let_env s = Some (r, s') \<Longrightarrow> grows s s'"
proof (induction bs arbitrary: s)
  case Nil
  then show ?case by (simp add: return_Some)
next
  case (Cons b bs)
  from Cons.prems(2) show ?case
    apply simp
    apply (erule bind_res_grows)
     apply (erule lift_grows)
    apply (clarsimp simp: lift_Some)
    apply (erule bind_res_grows)
     apply (erule keeps_wfD[OF assms Cons.prems(1)])
    apply (erule bind_res_grows)
     apply (erule lift_grows)
    apply (clarsimp simp: lift_Some)
    apply (erule bind_res_grows)
     apply (erule env_define_grows)
    apply (erule Cons.IH[rotated])
    apply (erule grows_length)
    apply (erule grows_length[OF _ Cons.prems(1)])
    done
qed

lemma eval_args_grows:
  assumes "keeps_wf ev"
  shows "env < length (envs s) \<Longrightarrow> eval_args ev as env s = Some (r, s') \<Longrightarrow> grows s s'"
proof (induction as arbitrary: s r s')
  case Nil
  then show ?case by (simp add: return_Some)
next
  case (Cons a as)
  from Cons.prems(2) show ?case
    apply simp
    apply (erule bind_res_grows)
     apply (erule keeps_wfD[OF assms Cons.prems(1)])
    apply (erule bind_res_grows)
     apply (erule Cons.IH[rotated])
     apply (erule grows_length[OF _ Cons.prems(1)])
    apply (erule return_grows)
    done
qed

lemma bind_params_grows:
  assumes "keeps_wf ev"
  shows "env < length (envs s) \<Longrightarrow> bind_params ev ps env call_env s = Some (r, s') \<Longrightarrow> grows s s'"
proof (induction ps arbitrary: s)
  case Nil
  then show ?case by (simp add: return_Some)
next
  case (Cons p ps)
  from Cons.prems(2) show ?case
    apply (cases p)
    apply simp
    apply (erule bind_res_grows)
     apply (erule keeps_wfD[OF assms Cons.prems(1)])
    apply (erule bind_res_grows)
     apply (erule env_define_grows)
    apply (erule Cons.IH[rotated])
    apply (erule grows_length)
    apply (erule grows_length[OF _ Cons.prems(1)])
    done
qed

lemma eval_expr_keeps_wf: "keeps_wf (eval_expr n)"
proof (induction n)
  case 0
  show ?case by (simp add: keeps_wf_def)
next
  case (Suc n)
  note IH = keeps_wfD[OF Suc]
  show ?case
    unfolding keeps_wf_def
  proof (intro allI impI, elim conjE)
    fix expr env r and s s' :: "environment interp"
    assume env: "env < length (envs s)"
    assume ev: "eval_expr (Suc n) expr env s = Some (r, s')"
    show "grows s s'"
    proof (cases expr rule: eval_expr_shapes)
      case (Num k)
      with ev show ?thesis by (simp add: return_Some)
    next
      case (Symbol x)
      with ev show ?thesis by (auto dest: env_lookup_same)
    next
      case Nil
      with ev show ?thesis by (simp add: return_Some)
    next
      case (Define args)
      from ev show ?thesis
        unfolding Define eval_expr_define
        apply -
        apply (erule bind_res_grows)
         apply (erule lift_grows)
        apply (clarsimp simp: lift_Some)
        apply (erule bind_res_grows)
         apply (erule IH[OF env])
        apply (erule bind_res_grows)
         apply (erule lift_grows)
        apply (clarsimp simp: lift_Some)
        apply (erule bind_res_grows)
         apply (erule env_define_grows)
        apply (erule return_grows)
        done
    next
      case (Lambda args)
      have "extends s s'" using ev by (rule eval_expr_extends)
      moreover from ev have "length (envs s') = length (envs s)"
        unfolding Lambda
        by (auto simp: eval_expr_lambda res_Some new_closure_eq split: if_splits list.splits)
      ultimately show ?thesis by (rule same_shape_grows)
    next
      case (Begin args)
      with ev show ?thesis
        by (auto simp: eval_expr_begin dest: eval_body_grows[OF Suc env])
    next
      case (Let args)
      show ?thesis
      proof (cases args)
        case Nil
        with ev Let show ?thesis by (simp add: eval_expr_let raise_Some)
      next
        case (Cons binding_list body_exprs)
        let ?s1 = "s\<lparr>envs := envs s @ [\<lparr>env_id = length (envs s), parent = Some env, bindings = []\<rparr>]\<rparr>"
        have g1: "grows s ?s1" using env by (rule new_frame_grows)
        have env1: "env < length (envs ?s1)" and le1: "length (envs s) < length (envs ?s1)"
          using env by simp_all
        from ev have "grows ?s1 s'"
          unfolding Let Cons eval_expr_let_Cons
          apply -
          apply (erule bind_res_grows)
           apply (erule lift_grows)
          apply (clarsimp simp: lift_Some)
          apply (erule bind_res_grows)
           apply (erule bind_let_grows[OF Suc env1])
          apply (erule eval_body_grows[OF Suc, rotated])
          apply (erule grows_length[OF _ le1])
          done
        with g1 show ?thesis by (rule grows_trans)
      qed
    next
      case (Set args)
      from ev show ?thesis
        unfolding Set eval_expr_set
        apply -
        apply (erule bind_res_grows)
         apply (erule lift_grows)
        apply (clarsimp simp: lift_Some)
        apply (erule bind_res_grows)
         apply (erule IH[OF env])
        apply (erule bind_res_grows)
         apply (erule lift_grows)
        apply (clarsimp simp: lift_Some)
        apply (erule bind_res_grows)
         apply (erule env_update_grows)
        apply (erule return_grows)
        done
    next
      case (Call op args)
      from ev have "bind_res (eval_expr n op env s) (\<lambda>proc s.
         case proc of
           Builtin f \<Rightarrow>
             bind_res (eval_args (eval_expr n) args env s) (\<lambda>evaluated_args.
             lift (call_builtin f evaluated_args))
         | Closure c \<Rightarrow>
             if def_env_id c < length (envs s) then
               (case new_env (def_env_id c) s of (call_env, s) \<Rightarrow>
                  bind_res (bind_params (eval_expr n) (zip (params c) args) env call_env s) (\<lambda>u.
                  eval_expr n (body c) call_env))
             else raise IndexError s
         | _ \<Rightarrow> raise (NotCallable proc) s) = Some (r, s')"
        unfolding Call(1) eval_expr_call[OF Call(2)] .
      then show ?thesis
      proof (rule bind_res_grows)
        fix r1 s1 assume "eval_expr n op env s = Some (r1, s1)"
        then show "grows s s1" by (rule IH[OF env])
      next
        fix proc s1
        assume op: "eval_expr n op env s = Some (Inr proc, s1)" and g: "grows s s1"
        assume rest: "(case proc of
           Builtin f \<Rightarrow>
             bind_res (eval_args (eval_expr n) args env s1) (\<lambda>evaluated_args.
             lift (call_builtin f evaluated_args))
         | Closure c \<Rightarrow>
             if def_env_id c < length (envs s1) then
               (case new_env (def_env_id c) s1 of (call_env, s) \<Rightarrow>
                  bind_res (bind_params (eval_expr n) (zip (params c) args) env call_env s) (\<lambda>u.
                  eval_expr n (body c) call_env))
             else raise IndexError s1
         | _ \<Rightarrow> raise (NotCallable proc) s1) = Some (r, s')"
        have env1: "env < length (envs s1)" using g env by (rule grows_length)
        show "grows s1 s'"
        proof (cases proc)
          case (Builtin f)
          with rest show ?thesis
            apply simp
            apply (erule bind_res_grows)
             apply (erule eval_args_grows[OF Suc env1])
            apply (erule lift_grows)
            done
        next
          case (Closure c)
          show ?thesis
          proof (cases "def_env_id c < length (envs s1)")
            case True
            let ?s2 = "s1\<lparr>envs := envs s1 @ [\<lparr>env_id = length (envs s1), parent = Some (def_env_id c), bindings = []\<rparr>]\<rparr>"
            have g2: "grows s1 ?s2" using True by (rule new_frame_grows)
            have env2: "env < length (envs ?s2)" and le2: "length (envs s1) < length (envs ?s2)"
              using env1 by simp_all
            from rest Closure True have "grows ?s2 s'"
              apply (simp add: new_env_eq)
              apply (erule bind_res_grows)
               apply (erule bind_params_grows[OF Suc env2])
              apply (erule IH[rotated])
              apply (erule grows_length[OF _ le2])
              done
            with g2 show ?thesis by (rule grows_trans)
          next
            case False
            with rest Closure show ?thesis by (simp add: raise_Some)
          qed
        qed (use rest in \<open>simp_all add: raise_Some\<close>)
      qed
    qed
  qed
qed

lemma eval_expr_wf:
  assumes "eval_expr n expr env s = Some (r, s')" and "env < length (envs s)" and "wf_envs (envs s)"
  shows "wf_envs (envs s')"
  using keeps_wfD[OF eval_expr_keeps_wf assms(2,1)] assms(3) by (simp add: grows_def)

lemma run_grows: "run n exprs s = Some (r, s') \<Longrightarrow> 0 < length (envs s) \<Longrightarrow> grows s s'"
proof (induction exprs arbitrary: s)
  case Nil
  then show ?case by (simp add: return_Some)
next
  case (Cons e es)
  from Cons.prems(1) show ?case
    apply simp
    apply (erule bind_res_grows)
     apply (erule keeps_wfD[OF eval_expr_keeps_wf Cons.prems(2)])
    apply (erule Cons.IH)
    apply (erule grows_length[OF _ Cons.prems(2)])
    done
qed

lemma run_wf:
  assumes "run n exprs (SchemeInterpreter c) = Some (r, s')"
  shows "wf_envs (envs s')"
proof -
  have "grows (SchemeInterpreter c) s'"
    using assms by (rule run_grows) (simp add: SchemeInterpreter_def)
  moreover have "wf_envs (envs (SchemeInterpreter c))"
    by (simp add: wf_envs_def SchemeInterpreter_def)
  ultimately show ?thesis by (simp add: grows_def)
qed

lemma spec_lookup_Inl:
  "spec_lookup fs i x = Inl e \<longleftrightarrow>
     e = NameError x \<and> (\<forall>j\<in>set (frame_chain fs i). map_of (bindings (fs ! j)) x = None)"
  by (auto simp: spec_lookup_def first_binding_None[symmetric] split: option.splits)

lemma spec_update_Inl:
  "spec_update fs i x v = Inl e \<longleftrightarrow>
     e = NameError x \<and> (\<forall>j\<in>set (frame_chain fs i). map_of (bindings (fs ! j)) x = None)"
  by (auto simp: spec_update_def first_binding_None[symmetric] split: option.splits)

lemma spec_lookup_Inr:
  "spec_lookup fs i x = Inr w \<longleftrightarrow>
     (\<exists>k<length (frame_chain fs i).
        map_of (bindings (fs ! (frame_chain fs i ! k))) x = Some w \<and>
        (\<forall>k'<k. map_of (bindings (fs ! (frame_chain fs i ! k'))) x = None))"
proof -
  have "spec_lookup fs i x = Inr w \<longleftrightarrow> (\<exists>j. first_binding fs x (frame_chain fs i) = Some (j, w))"
    by (auto simp: spec_lookup_def split: option.splits)
  then show ?thesis
    by (auto simp: first_binding_Some)
qed

lemma spec_update_Inr:
  "spec_update fs i x v = Inr fs' \<longleftrightarrow>
     (\<exists>k<length (frame_chain fs i).
        map_of (bindings (fs ! (frame_chain fs i ! k))) x \<noteq> None \<and>
        (\<forall>k'<k. map_of (bindings (fs ! (frame_chain fs i ! k'))) x = None) \<and>
        fs' = fs[frame_chain fs i ! k :=
                  (fs ! (frame_chain fs i ! k))\<lparr>bindings := AList.update x v (bindings (fs ! (frame_chain fs i ! k)))\<rparr>])"
  (is "?L \<longleftrightarrow> ?R")
proof
  assume ?L
  then obtain j old where fb: "first_binding fs x (frame_chain fs i) = Some (j, old)"
    and fs': "fs' = fs[j := (fs ! j)\<lparr>bindings := AList.update x v (bindings (fs ! j))\<rparr>]"
    by (auto simp: spec_update_def split: option.splits)
  from fb[unfolded first_binding_Some] fs' show ?R by auto
next
  assume ?R
  then obtain k where k: "k < length (frame_chain fs i)"
    "map_of (bindings (fs ! (frame_chain fs i ! k))) x \<noteq> None"
    "\<forall>k'<k. map_of (bindings (fs ! (frame_chain fs i ! k'))) x = None"
    and fs': "fs' = fs[frame_chain fs i ! k :=
                  (fs ! (frame_chain fs i ! k))\<lparr>bindings := AList.update x v (bindings (fs ! (frame_chain fs i ! k)))\<rparr>]"
    by blast
  from k(2) obtain old where "map_of (bindings (fs ! (frame_chain fs i ! k))) x = Some old" by auto
  with k have "first_binding fs x (frame_chain fs i) = Some (frame_chain fs i ! k, old)"
    unfolding first_binding_Some by blast
  with fs' show ?L by (simp add: spec_update_def)
qed

text \<open>
  C3. On a store where every parent is an earlier frame, as the stores of a run are,
  and for a frame \<open>i\<close> of the store: \<open>lookup\<close> and \<open>update\<close> return, and do what
  the specification says (\<open>spec_lookup\<close>, \<open>spec_update\<close>). Both fail exactly when no
  frame of the chain from \<open>i\<close> to the root binds \<open>x\<close>, and then with \<open>NameError\<close>
  for \<open>x\<close>; \<open>lookup\<close> returns the binding of the first frame of the chain that
  binds \<open>x\<close>; \<open>update\<close> overwrites the binding in that frame and changes no other
  frame. The chain starts with \<open>i\<close>, goes from each frame to its parent and ends
  with a frame that has none.
\<close>

theorem lookup_update_chain:
  assumes "wf_envs fs" and "i < length fs"
  shows "lookup fs i x = Some (spec_lookup fs i x) \<and>
     update fs i x v = Some (spec_update fs i x v) \<and>
     (\<forall>e. lookup fs i x = Some (Inl e) \<longleftrightarrow>
        e = NameError x \<and> (\<forall>j\<in>set (frame_chain fs i). map_of (bindings (fs ! j)) x = None)) \<and>
     (\<forall>e. update fs i x v = Some (Inl e) \<longleftrightarrow>
        e = NameError x \<and> (\<forall>j\<in>set (frame_chain fs i). map_of (bindings (fs ! j)) x = None)) \<and>
     (\<forall>w. lookup fs i x = Some (Inr w) \<longleftrightarrow>
        (\<exists>k<length (frame_chain fs i).
           map_of (bindings (fs ! (frame_chain fs i ! k))) x = Some w \<and>
           (\<forall>k'<k. map_of (bindings (fs ! (frame_chain fs i ! k'))) x = None))) \<and>
     (\<forall>fs'. update fs i x v = Some (Inr fs') \<longleftrightarrow>
        (\<exists>k<length (frame_chain fs i).
           map_of (bindings (fs ! (frame_chain fs i ! k))) x \<noteq> None \<and>
           (\<forall>k'<k. map_of (bindings (fs ! (frame_chain fs i ! k'))) x = None) \<and>
           fs' = fs[frame_chain fs i ! k :=
                  (fs ! (frame_chain fs i ! k))\<lparr>bindings := AList.update x v (bindings (fs ! (frame_chain fs i ! k)))\<rparr>])) \<and>
     hd (frame_chain fs i) = i \<and>
     (\<forall>k. Suc k < length (frame_chain fs i) \<longrightarrow>
          parent (fs ! (frame_chain fs i ! k)) = Some (frame_chain fs i ! Suc k)) \<and>
     parent (fs ! last (frame_chain fs i)) = None \<and>
     (\<forall>n exprs c r s'. run n exprs (SchemeInterpreter c) = Some (r, s') \<longrightarrow> wf_envs (envs s'))"
proof -
  note l = lookup_spec[OF assms, of x] and u = update_spec[OF assms, of x v]
  from frame_chain_links[OF assms] have links:
    "\<forall>k. Suc k < length (frame_chain fs i) \<longrightarrow>
          parent (fs ! (frame_chain fs i ! k)) = Some (frame_chain fs i ! Suc k)"
    "parent (fs ! last (frame_chain fs i)) = None"
    by simp_all
  have run: "\<forall>n exprs c r s'. run n exprs (SchemeInterpreter c) = Some (r, s') \<longrightarrow> wf_envs (envs s')"
    using run_wf by blast
  show ?thesis
    unfolding l u option.inject spec_lookup_Inl spec_update_Inl spec_lookup_Inr spec_update_Inr
    using links run frame_chain_hd[of fs i] by simp
qed

theorem lookup_update_chain_witness:
  "lookup (envs scoping_state) 1 ''f'' = Some (Inr (Closure scoping_closure)) \<and>
   lookup (envs scoping_state) 1 ''x'' = Some (Inr (Number (PyInt 2))) \<and>
   lookup (envs scoping_state) 1 ''z'' = Some (Inl (NameError ''z'')) \<and>
   update (envs scoping_state) 1 ''z'' (Number (PyInt 5)) = Some (Inl (NameError ''z'')) \<and>
   update (envs scoping_state) 1 ''f'' (Number (PyInt 5)) =
     Some (Inr ((envs scoping_state)
       [0 := (envs scoping_state ! 0)\<lparr>bindings := initial_bindings @ [(''x'', Number (PyInt 1)), (''f'', Number (PyInt 5))]\<rparr>])) \<and>
   frame_chain (envs scoping_state) 1 = [1, 0]"
proof -
  have wf: "wf_envs (envs scoping_state)"
    by (auto simp: wf_envs_def scoping_state_def less_Suc_eq)
  have i: "1 < length (envs scoping_state)"
    by (simp add: scoping_state_def)
  note T = lookup_update_chain[OF wf i]
  have 1: "spec_lookup (envs scoping_state) 1 ''f'' = Inr (Closure scoping_closure)"
    by code_simp
  have 2: "spec_lookup (envs scoping_state) 1 ''x'' = Inr (Number (PyInt 2))"
    by code_simp
  have 3: "spec_lookup (envs scoping_state) 1 ''z'' = Inl (NameError ''z'')"
    by code_simp
  have 4: "spec_update (envs scoping_state) 1 ''z'' (Number (PyInt 5)) = Inl (NameError ''z'')"
    by code_simp
  have 5: "spec_update (envs scoping_state) 1 ''f'' (Number (PyInt 5)) =
     Inr ((envs scoping_state)
       [0 := (envs scoping_state ! 0)\<lparr>bindings := initial_bindings @ [(''x'', Number (PyInt 1)), (''f'', Number (PyInt 5))]\<rparr>])"
    by code_simp
  have 6: "frame_chain (envs scoping_state) 1 = [1, 0]"
    by code_simp
  from T[of "''f''" "Number (PyInt 5)"] T[of "''x''" "Number (PyInt 5)"] T[of "''z''" "Number (PyInt 5)"]
  show ?thesis
    unfolding 1 2 3 4 5 6 by simp
qed

section \<open>Let and set!\<close>



lemma unpack_binding_of [simp]: "unpack_binding (binding_of (x, a, v)) = Inr (Symbol x, a)"
  by (simp add: binding_of_def)

lemma install_Nil [simp]: "install [] al = al"
  by (simp add: install_def)

lemma install_Cons [simp]: "install ((x, a, v) # bs) al = install bs (AList.update x v al)"
  by (simp add: install_def)






section \<open>The values\<close>

lemma keeps_registeredD:
  "keeps_registered ev \<Longrightarrow> registered s \<Longrightarrow> ev e env s = Some (r, s') \<Longrightarrow> registered s'"
  "keeps_registered ev \<Longrightarrow> registered s \<Longrightarrow> ev e env s = Some (Inr v, s') \<Longrightarrow> val_ok (closures s') v"
  by (auto simp: keeps_registered_def)

lemma val_ok_simps [simp]:
  "val_ok cs (Number k)" "val_ok cs NoneVal" "val_ok cs (Builtin f)" "val_ok cs (Closure c) \<longleftrightarrow> c \<in> set cs"
  by (simp_all add: val_ok_def)

lemma val_ok_append: "val_ok cs v \<Longrightarrow> val_ok (cs @ ds) v"
  by (cases v) simp_all

lemma lookup_binding:
  assumes "lookup fs i x = Some r"
  shows "r = Inr v \<Longrightarrow> \<exists>j<length fs. (x, v) \<in> set (bindings (fs ! j))"
  using assms
proof (induction rule: lookup.raw_induct[rotated 1, consumes 1, case_names step])
  case (step lk fs self var r)
  then show ?case
    by (auto split: if_splits option.splits dest: map_of_SomeD)
qed

lemma env_lookup_registered:
  assumes "registered s" and "env_lookup env x s = Some (Inr v, s')"
  shows "val_ok (closures s') v"
proof -
  from assms(2) have l: "lookup (envs s) env x = Some (Inr v)" and s': "s' = s"
    by (auto simp: env_lookup_def split: option.splits)
  from lookup_binding[OF l refl] obtain j where "j < length (envs s)" "(x, v) \<in> set (bindings (envs s ! j))"
    by blast
  with assms(1) show ?thesis
    unfolding s' registered_def by (metis nth_mem snd_conv)
qed

lemma set_update_subset: "set (AList.update x v al) \<subseteq> insert (x, v) (set al)"
  by (induction al) auto

lemma registered_set_bindings:
  assumes "registered s" and "val_ok (closures s) v" and "j < length (envs s)"
  shows "registered (s\<lparr>envs := (envs s)[j := (envs s ! j)\<lparr>bindings := AList.update x v (bindings (envs s ! j))\<rparr>]\<rparr>)"
  unfolding registered_def
proof (intro ballI)
  fix e b
  assume e: "e \<in> set (envs (s\<lparr>envs := (envs s)[j := (envs s ! j)\<lparr>bindings := AList.update x v (bindings (envs s ! j))\<rparr>]\<rparr>))"
    and b: "b \<in> set (bindings e)"
  from e have "e \<in> insert ((envs s ! j)\<lparr>bindings := AList.update x v (bindings (envs s ! j))\<rparr>) (set (envs s))"
    using set_update_subset_insert by fastforce
  then consider "e = (envs s ! j)\<lparr>bindings := AList.update x v (bindings (envs s ! j))\<rparr>" | "e \<in> set (envs s)"
    by blast
  then show "val_ok (closures (s\<lparr>envs := (envs s)[j := (envs s ! j)\<lparr>bindings := AList.update x v (bindings (envs s ! j))\<rparr>]\<rparr>)) (snd b)"
  proof cases
    case 1
    with b have "b \<in> insert (x, v) (set (bindings (envs s ! j)))"
      using set_update_subset by fastforce
    with assms show ?thesis
      by (auto simp: registered_def)
  next
    case 2
    with b assms(1) show ?thesis by (auto simp: registered_def)
  qed
qed

lemma env_define_registered:
  assumes "registered s" and "val_ok (closures s) v" and "env_define env x v s = Some (r, s')"
  shows "registered s'" and "closures s' = closures s"
  using assms(3) registered_set_bindings[OF assms(1,2)]
  by (auto simp: env_define_def define_var_Some split: option.splits)

lemma env_update_registered:
  assumes "registered s" and "val_ok (closures s) v" and "env_update env x v s = Some (r, s')"
  shows "registered s'" and "closures s' = closures s"
  using assms(3,1) registered_set_bindings[OF assms(1,2)]
  by (auto simp: env_update_def split: option.splits sum.splits dest!: update_Some)

lemma registered_new_frame:
  "registered s \<Longrightarrow> registered (s\<lparr>envs := envs s @ [\<lparr>env_id = i, parent = p, bindings = []\<rparr>]\<rparr>)"
  by (auto simp: registered_def)

lemma registered_new_closure:
  "registered s \<Longrightarrow> registered (s\<lparr>closure_counter := k, closures := closures s @ [c]\<rparr>)"
  by (auto simp: registered_def intro: val_ok_append)

lemma eval_body_registered:
  assumes "keeps_registered ev"
  shows "registered s \<Longrightarrow> val_ok (closures s) res \<Longrightarrow> eval_body ev es env res s = Some (r, s') \<Longrightarrow>
     registered s' \<and> (\<forall>v. r = Inr v \<longrightarrow> val_ok (closures s') v)"
proof (induction es arbitrary: res s)
  case Nil
  then show ?case by (auto simp: return_Some)
next
  case (Cons e es)
  from Cons.prems(3) have "bind_res (ev e env s) (\<lambda>result'. eval_body ev es env result') = Some (r, s')"
    by simp
  then show ?case
  proof (cases rule: bind_resE)
    case (err x)
    with keeps_registeredD(1)[OF assms Cons.prems(1)] show ?thesis by auto
  next
    case (ok v s1)
    from keeps_registeredD[OF assms Cons.prems(1) ok(1)] ok(2) show ?thesis
      by (intro Cons.IH)
  qed
qed

lemma bind_let_registered:
  assumes "keeps_registered ev"
  shows "registered s \<Longrightarrow> bind_let ev bs env let_env s = Some (r, s') \<Longrightarrow> registered s'"
proof (induction bs arbitrary: s)
  case Nil
  then show ?case by (auto simp: return_Some)
next
  case (Cons b bs)
  show ?case
  proof (cases "unpack_binding b")
    case (Inl e)
    with Cons.prems show ?thesis by (simp add: raise_Some)
  next
    case (Inr p)
    obtain var_sym val_expr where p: "p = (var_sym, val_expr)" by (cases p)
    from Cons.prems(2) Inr p have "bind_res (ev val_expr env s) (\<lambda>v s.
        bind_res (lift (symbol_value var_sym) s) (\<lambda>var s.
        bind_res (env_define let_env var v s) (\<lambda>u. bind_let ev bs env let_env))) = Some (r, s')"
      by simp
    then show ?thesis
    proof (cases rule: bind_resE)
      case (err x)
      with keeps_registeredD(1)[OF assms Cons.prems(1)] show ?thesis by auto
    next
      case (ok v s1)
      note reg1 = keeps_registeredD[OF assms Cons.prems(1) ok(1)]
      show ?thesis
      proof (cases "symbol_value var_sym")
        case (Inl e)
        with ok(2) reg1(1) show ?thesis by (simp add: raise_Some)
      next
        case (Inr var)
        with ok(2) have "bind_res (env_define let_env var v s1) (\<lambda>u. bind_let ev bs env let_env) = Some (r, s')"
          by simp
        then show ?thesis
        proof (cases rule: bind_resE)
          case (err x)
          from env_define_registered(1)[OF reg1 err(1)] show ?thesis .
        next
          case (ok u s2)
          from env_define_registered(1)[OF reg1 ok(1)] ok(2) show ?thesis
            by (rule Cons.IH)
        qed
      qed
    qed
  qed
qed

lemma eval_args_registered:
  assumes "keeps_registered ev"
  shows "registered s \<Longrightarrow> eval_args ev as env s = Some (r, s') \<Longrightarrow> registered s'"
proof (induction as arbitrary: s r s')
  case Nil
  then show ?case by (auto simp: return_Some)
next
  case (Cons a as)
  from Cons.prems(2) have "bind_res (ev a env s) (\<lambda>v s.
     bind_res (eval_args ev as env s) (\<lambda>vs. return (v # vs))) = Some (r, s')"
    by simp
  then show ?case
  proof (cases rule: bind_resE)
    case (err x)
    with keeps_registeredD(1)[OF assms Cons.prems(1)] show ?thesis by auto
  next
    case (ok v s1)
    note reg1 = keeps_registeredD(1)[OF assms Cons.prems(1) ok(1)]
    from ok(2) show ?thesis
    proof (cases rule: bind_resE)
      case (err x)
      from Cons.IH[OF reg1 err(1)] show ?thesis .
    next
      case (ok vs s2)
      from Cons.IH[OF reg1 ok(1)] ok(2) show ?thesis by (simp add: return_Some)
    qed
  qed
qed

lemma bind_params_registered:
  assumes "keeps_registered ev"
  shows "registered s \<Longrightarrow> bind_params ev ps env call_env s = Some (r, s') \<Longrightarrow> registered s'"
proof (induction ps arbitrary: s)
  case Nil
  then show ?case by (auto simp: return_Some)
next
  case (Cons p ps)
  obtain x a where p: "p = (x, a)" by (cases p)
  from Cons.prems(2) p have "bind_res (ev a env s) (\<lambda>v s.
     bind_res (env_define call_env x v s) (\<lambda>u. bind_params ev ps env call_env)) = Some (r, s')"
    by simp
  then show ?case
  proof (cases rule: bind_resE)
    case (err e)
    with keeps_registeredD(1)[OF assms Cons.prems(1)] show ?thesis by auto
  next
    case (ok v s1)
    note reg1 = keeps_registeredD[OF assms Cons.prems(1) ok(1)]
    from ok(2) show ?thesis
    proof (cases rule: bind_resE)
      case (err e)
      from env_define_registered(1)[OF reg1 err(1)] show ?thesis .
    next
      case (ok u s2)
      from env_define_registered(1)[OF reg1 ok(1)] ok(2) show ?thesis
        by (rule Cons.IH)
    qed
  qed
qed

lemma call_builtin_val_ok: "call_builtin f vs = Inr v \<Longrightarrow> val_ok cs v"
  by (cases "(f, vs)" rule: call_builtin.cases) (auto simp: py_truediv_def split: if_splits)

lemma eval_expr_keeps_registered: "keeps_registered (eval_expr n)"
proof (induction n)
  case 0
  show ?case by (simp add: keeps_registered_def)
next
  case (Suc n)
  note IH = keeps_registeredD[OF Suc]
  show ?case
    unfolding keeps_registered_def
  proof (intro allI impI, elim conjE)
    fix expr env r and s s' :: "environment interp"
    assume reg: "registered s"
    assume ev: "eval_expr (Suc n) expr env s = Some (r, s')"
    show "registered s' \<and> (\<forall>v. r = Inr v \<longrightarrow> val_ok (closures s') v)"
    proof (cases expr rule: eval_expr_shapes)
      case (Num k)
      with ev reg show ?thesis by (auto simp: return_Some)
    next
      case (Symbol x)
      with ev reg show ?thesis
        using env_lookup_registered[OF reg] env_lookup_same by fastforce
    next
      case Nil
      with ev reg show ?thesis by (auto simp: return_Some)
    next
      case (Define args)
      show ?thesis
      proof (cases "unpack_args args")
        case (Inl e)
        with ev Define reg show ?thesis by (simp add: eval_expr_define raise_Some)
      next
        case (Inr p)
        obtain var_symbol val_expr where p: "p = (var_symbol, val_expr)" by (cases p)
        from ev Define Inr p have "bind_res (eval_expr n val_expr env s) (\<lambda>v s.
            bind_res (lift (symbol_value var_symbol) s) (\<lambda>var s.
            bind_res (env_define env var v s) (\<lambda>u. return v))) = Some (r, s')"
          by (simp add: eval_expr_define)
        then show ?thesis
        proof (cases rule: bind_resE)
          case (err e)
          with IH(1)[OF reg] show ?thesis by auto
        next
          case (ok v s1)
          note reg1 = IH[OF reg ok(1)]
          show ?thesis
          proof (cases "symbol_value var_symbol")
            case (Inl e)
            with ok(2) reg1(1) show ?thesis by (simp add: raise_Some)
          next
            case (Inr var)
            with ok(2) have "bind_res (env_define env var v s1) (\<lambda>u. return v) = Some (r, s')"
              by simp
            then show ?thesis
            proof (cases rule: bind_resE)
              case (err e)
              with env_define_registered(1)[OF reg1 err(1)] show ?thesis by simp
            next
              case (ok u s2)
              with env_define_registered[OF reg1 ok(1)] reg1(2) show ?thesis
                by (auto simp: return_Some)
            qed
          qed
        qed
      qed
    next
      case (Lambda args)
      with ev reg show ?thesis
        by (auto simp: eval_expr_lambda res_Some new_closure_eq registered_new_closure
            split: list.splits if_splits)
    next
      case (Begin args)
      with ev show ?thesis
        using eval_body_registered[OF Suc reg, of NoneVal args env r s'] by (simp add: eval_expr_begin)
    next
      case (Let args)
      show ?thesis
      proof (cases args)
        case Nil
        with ev Let reg show ?thesis by (simp add: eval_expr_let raise_Some)
      next
        case (Cons binding_list body_exprs)
        let ?s1 = "s\<lparr>envs := envs s @ [\<lparr>env_id = length (envs s), parent = Some env, bindings = []\<rparr>]\<rparr>"
        have reg1: "registered ?s1" using reg by (rule registered_new_frame)
        show ?thesis
        proof (cases "iterate binding_list")
          case (Inl e)
          with ev Let Cons reg1 show ?thesis by (simp add: eval_expr_let_Cons raise_Some)
        next
          case (Inr bs)
          with ev Let Cons have "bind_res (bind_let (eval_expr n) bs env (length (envs s)) ?s1)
              (\<lambda>u. eval_body (eval_expr n) body_exprs (length (envs s)) NoneVal) = Some (r, s')"
            by (simp add: eval_expr_let_Cons)
          then show ?thesis
          proof (cases rule: bind_resE)
            case (err e)
            with bind_let_registered[OF Suc reg1 err(1)] show ?thesis by simp
          next
            case (ok u s2)
            from bind_let_registered[OF Suc reg1 ok(1)] have "registered s2" .
            from eval_body_registered[OF Suc this _ ok(2)] show ?thesis by simp
          qed
        qed
      qed
    next
      case (Set args)
      show ?thesis
      proof (cases "unpack_args args")
        case (Inl e)
        with ev Set reg show ?thesis by (simp add: eval_expr_set raise_Some)
      next
        case (Inr p)
        obtain var_sym val_expr where p: "p = (var_sym, val_expr)" by (cases p)
        from ev Set Inr p have "bind_res (eval_expr n val_expr env s) (\<lambda>v s.
            bind_res (lift (symbol_value var_sym) s) (\<lambda>var s.
            bind_res (env_update env var v s) (\<lambda>u. return v))) = Some (r, s')"
          by (simp add: eval_expr_set)
        then show ?thesis
        proof (cases rule: bind_resE)
          case (err e)
          with IH(1)[OF reg] show ?thesis by auto
        next
          case (ok v s1)
          note reg1 = IH[OF reg ok(1)]
          show ?thesis
          proof (cases "symbol_value var_sym")
            case (Inl e)
            with ok(2) reg1(1) show ?thesis by (simp add: raise_Some)
          next
            case (Inr var)
            with ok(2) have "bind_res (env_update env var v s1) (\<lambda>u. return v) = Some (r, s')"
              by simp
            then show ?thesis
            proof (cases rule: bind_resE)
              case (err e)
              with env_update_registered(1)[OF reg1 err(1)] show ?thesis by simp
            next
              case (ok u s2)
              with env_update_registered[OF reg1 ok(1)] reg1(2) show ?thesis
                by (auto simp: return_Some)
            qed
          qed
        qed
      qed
    next
      case (Call op args)
      from ev have "bind_res (eval_expr n op env s) (\<lambda>proc s.
         case proc of
           Builtin f \<Rightarrow>
             bind_res (eval_args (eval_expr n) args env s) (\<lambda>evaluated_args.
             lift (call_builtin f evaluated_args))
         | Closure c \<Rightarrow>
             if def_env_id c < length (envs s) then
               (case new_env (def_env_id c) s of (call_env, s) \<Rightarrow>
                  bind_res (bind_params (eval_expr n) (zip (params c) args) env call_env s) (\<lambda>u.
                  eval_expr n (body c) call_env))
             else raise IndexError s
         | _ \<Rightarrow> raise (NotCallable proc) s) = Some (r, s')"
        unfolding Call(1) eval_expr_call[OF Call(2)] .
      then show ?thesis
      proof (cases rule: bind_resE)
        case (err e)
        with IH(1)[OF reg] show ?thesis by auto
      next
        case (ok proc s1)
        note reg1 = IH(1)[OF reg ok(1)]
        show ?thesis
        proof (cases proc)
          case (Builtin f)
          with ok(2) have "bind_res (eval_args (eval_expr n) args env s1) (\<lambda>evaluated_args.
             lift (call_builtin f evaluated_args)) = Some (r, s')"
            by simp
          then show ?thesis
          proof (cases rule: bind_resE)
            case (err e)
            with eval_args_registered[OF Suc reg1 err(1)] show ?thesis by simp
          next
            case (ok vs s2)
            with eval_args_registered[OF Suc reg1 ok(1)] show ?thesis
              by (auto simp: lift_Some intro: call_builtin_val_ok)
          qed
        next
          case (Closure c)
          show ?thesis
          proof (cases "def_env_id c < length (envs s1)")
            case True
            let ?s2 = "s1\<lparr>envs := envs s1 @ [\<lparr>env_id = length (envs s1), parent = Some (def_env_id c), bindings = []\<rparr>]\<rparr>"
            have reg2: "registered ?s2" using reg1 by (rule registered_new_frame)
            from ok(2) Closure True have "bind_res (bind_params (eval_expr n) (zip (params c) args) env (length (envs s1)) ?s2)
                (\<lambda>u. eval_expr n (body c) (length (envs s1))) = Some (r, s')"
              by (simp add: new_env_eq)
            then show ?thesis
            proof (cases rule: bind_resE)
              case (err e)
              with bind_params_registered[OF Suc reg2 err(1)] show ?thesis by simp
            next
              case (ok u s3)
              from bind_params_registered[OF Suc reg2 ok(1)] have "registered s3" .
              from IH[OF this] ok(2) show ?thesis by auto
            qed
          next
            case False
            with ok(2) Closure reg1 show ?thesis by (simp add: raise_Some)
          qed
        qed (use ok(2) reg1 in \<open>simp_all add: raise_Some\<close>)
      qed
    qed
  qed
qed

lemma run_registered:
  "registered s \<Longrightarrow> run n exprs s = Some (r, s') \<Longrightarrow> registered s'"
proof (induction exprs arbitrary: s)
  case Nil
  then show ?case by (simp add: return_Some)
next
  case (Cons e es)
  from Cons.prems(2) have "bind_res (eval_expr n e 0 s) (\<lambda>v. run n es) = Some (r, s')"
    by simp
  then show ?case
  proof (cases rule: bind_resE)
    case (err x)
    with keeps_registeredD(1)[OF eval_expr_keeps_registered Cons.prems(1)] show ?thesis by auto
  next
    case (ok v s1)
    from keeps_registeredD(1)[OF eval_expr_keeps_registered Cons.prems(1) ok(1)] ok(2)
    show ?thesis by (rule Cons.IH)
  qed
qed

lemma SchemeInterpreter_registered: "registered (SchemeInterpreter c)"
  by (simp add: registered_def SchemeInterpreter_def initial_bindings_def)

lemma val_ok_variants:
  "val_ok cs v \<longleftrightarrow> (\<exists>k. v = Number k) \<or> v = NoneVal \<or> (\<exists>f. v = Builtin f) \<or> (\<exists>c. v = Closure c \<and> c \<in> set cs)"
  by (cases v) simp_all

text \<open>
  C7, as stated, has three kinds of values. There is a fourth: the empty list
  evaluates to Python's \<open>None\<close>, which is not a number, a closure or a builtin, and
  \<open>(define x ())\<close> stores it in the binding table of the root frame.
\<close>

theorem three_variants_counterexample:
  "eval_expr 1 (Lst []) 0 (SchemeInterpreter 0) = Some (Inr NoneVal, SchemeInterpreter 0) \<and>
   (\<exists>s'. eval_expr 2 (Lst [Symbol ''define'', Symbol ''x'', Lst []]) 0 (SchemeInterpreter 0) = Some (Inr NoneVal, s') \<and>
         map_of (bindings (envs s' ! 0)) ''x'' = Some NoneVal) \<and>
   \<not> ((\<exists>k. NoneVal = Number k) \<or> (\<exists>c. NoneVal = Closure c) \<or> (\<exists>f. NoneVal = Builtin f))"
proof -
  let ?d = "eval_expr 2 (Lst [Symbol ''define'', Symbol ''x'', Lst []]) 0 (SchemeInterpreter 0)"
  have "?d \<noteq> None \<and> fst (the ?d) = Inr NoneVal \<and> map_of (bindings (envs (snd (the ?d)) ! 0)) ''x'' = Some NoneVal"
    by code_simp
  then have "\<exists>s'. ?d = Some (Inr NoneVal, s') \<and> map_of (bindings (envs s' ! 0)) ''x'' = Some NoneVal"
    by (cases ?d) auto
  moreover have "eval_expr 1 (Lst []) 0 (SchemeInterpreter 0) = Some (Inr NoneVal, SchemeInterpreter 0)"
    by (simp add: return_def)
  ultimately show ?thesis by simp
qed

text \<open>
  C7, amended. Every value that \<open>eval_expr\<close> returns and every value in a binding
  table of a run is a number, \<open>None\<close>, a builtin, or a closure, and the closure is in
  the interpreter's list of closures. (From a state whose bound closures are all in
  that list, as the state of a new interpreter is, \<open>eval_expr\<close> and \<open>run\<close> reach
  such states only.) Each of the four kinds is the value of some expression.
\<close>

theorem values_four_variants:
  "(\<forall>n expr env s v s'.
      registered s \<and> eval_expr n expr env s = Some (Inr v, s') \<longrightarrow>
      registered s' \<and>
      ((\<exists>k. v = Number k) \<or> v = NoneVal \<or> (\<exists>f. v = Builtin f) \<or> (\<exists>c. v = Closure c \<and> c \<in> set (closures s')))) \<and>
   (\<forall>n exprs c0 r s' i x v.
      run n exprs (SchemeInterpreter c0) = Some (r, s') \<and> i < length (envs s') \<and>
      map_of (bindings (envs s' ! i)) x = Some v \<longrightarrow>
      (\<exists>k. v = Number k) \<or> v = NoneVal \<or> (\<exists>f. v = Builtin f) \<or> (\<exists>c. v = Closure c \<and> c \<in> set (closures s'))) \<and>
   (\<forall>n exprs c0 r s'. run n exprs (SchemeInterpreter c0) = Some (r, s') \<longrightarrow> registered s') \<and>
   map_option fst (eval_expr 1 (Num (PyInt 1)) 0 (SchemeInterpreter 0)) = Some (Inr (Number (PyInt 1))) \<and>
   map_option fst (eval_expr 1 (Lst []) 0 (SchemeInterpreter 0)) = Some (Inr NoneVal) \<and>
   map_option fst (eval_expr 1 (Symbol ''+'') 0 (SchemeInterpreter 0)) = Some (Inr (Builtin Add)) \<and>
   map_option fst (eval_expr 1 id_lambda 0 (SchemeInterpreter 0)) =
     Some (Inr (Closure \<lparr>closure_id = 0, params = [''a''], body = Symbol ''a'', def_env_id = 0\<rparr>))"
proof (intro conjI allI impI)
  fix n expr env and s s' :: "environment interp" and v
  assume a: "registered s \<and> eval_expr n expr env s = Some (Inr v, s')"
  then show "registered s'"
    using keeps_registeredD(1)[OF eval_expr_keeps_registered] by blast
  from a have "val_ok (closures s') v"
    using keeps_registeredD(2)[OF eval_expr_keeps_registered] by blast
  then show "(\<exists>k. v = Number k) \<or> v = NoneVal \<or> (\<exists>f. v = Builtin f) \<or> (\<exists>c. v = Closure c \<and> c \<in> set (closures s'))"
    by (simp add: val_ok_variants)
next
  fix n exprs c0 r and s' :: "environment interp" and i x v
  assume a: "run n exprs (SchemeInterpreter c0) = Some (r, s') \<and> i < length (envs s') \<and>
      map_of (bindings (envs s' ! i)) x = Some v"
  then have "registered s'"
    using run_registered[OF SchemeInterpreter_registered] by blast
  moreover from a have "envs s' ! i \<in> set (envs s')" "(x, v) \<in> set (bindings (envs s' ! i))"
    by (auto dest: map_of_SomeD)
  ultimately have "val_ok (closures s') v"
    unfolding registered_def by fastforce
  then show "(\<exists>k. v = Number k) \<or> v = NoneVal \<or> (\<exists>f. v = Builtin f) \<or> (\<exists>c. v = Closure c \<and> c \<in> set (closures s'))"
    by (simp add: val_ok_variants)
next
  fix n exprs c0 r and s' :: "environment interp"
  assume "run n exprs (SchemeInterpreter c0) = Some (r, s')"
  with SchemeInterpreter_registered show "registered s'" by (rule run_registered)
next
  show "map_option fst (eval_expr 1 (Symbol ''+'') 0 (SchemeInterpreter 0)) = Some (Inr (Builtin Add))"
    by code_simp
next
  show "map_option fst (eval_expr 1 id_lambda 0 (SchemeInterpreter 0)) =
     Some (Inr (Closure \<lparr>closure_id = 0, params = [''a''], body = Symbol ''a'', def_env_id = 0\<rparr>))"
    by code_simp
qed (simp_all add: return_def)

theorem values_four_variants_witness:
  "\<exists>c s'. eval_expr 2 (Lst [Symbol ''define'', Symbol ''f'', id_lambda]) 0 (SchemeInterpreter 0) = Some (Inr (Closure c), s') \<and>
      registered s' \<and> c \<in> set (closures s') \<and>
      run 2 define_f (SchemeInterpreter 0) = Some (Inr (), s') \<and>
      map_of (bindings (envs s' ! 0)) ''f'' = Some (Closure c)"
proof -
  note T1 = values_four_variants[THEN conjunct1, rule_format]
  note T2 = values_four_variants[THEN conjunct2, THEN conjunct1, rule_format]
  note T3 = values_four_variants[THEN conjunct2, THEN conjunct2, THEN conjunct1, rule_format]
  let ?c = "\<lparr>closure_id = 0, params = [''a''], body = Symbol ''a'', def_env_id = 0\<rparr>"
  let ?e = "eval_expr 2 (Lst [Symbol ''define'', Symbol ''f'', id_lambda]) 0 (SchemeInterpreter 0)"
  let ?r = "run 2 define_f (SchemeInterpreter 0)"
  have "?e \<noteq> None \<and> fst (the ?e) = Inr (Closure ?c) \<and> ?r = Some (Inr (), snd (the ?e)) \<and>
        map_of (bindings (envs (snd (the ?e)) ! 0)) ''f'' = Some (Closure ?c) \<and> 0 < length (envs (snd (the ?e)))"
    by code_simp
  then obtain s' where e: "?e = Some (Inr (Closure ?c), s')" and r: "?r = Some (Inr (), s')"
    and b: "map_of (bindings (envs s' ! 0)) ''f'' = Some (Closure ?c)" and l: "0 < length (envs s')"
    by (cases ?e) auto
  have "registered (SchemeInterpreter 0) \<and> ?e = Some (Inr (Closure ?c), s')"
    using e T3[of 0 "[]" 0 "Inr ()" "SchemeInterpreter 0"] by (simp add: return_def)
  from T1[OF this] have 1: "registered s'" "?c \<in> set (closures s')"
    by simp_all
  have "?r = Some (Inr (), s') \<and> 0 < length (envs s') \<and> map_of (bindings (envs s' ! 0)) ''f'' = Some (Closure ?c)"
    using r b l by simp
  from T2[OF this] have "?c \<in> set (closures s')" by simp
  with e r b 1 show ?thesis by blast
qed

end
